theory Spec2Isabelle
  imports Main
begin

unbundle bit_operations_syntax

section \<open>Data model of the DualPipe scheduler\<close>

text \<open>
  The theory embeds \<^verbatim>\<open>src/dualpipe/dualpipe.py\<close>. One \<^verbatim>\<open>DualPipe\<close> object lives on every
  rank; the constructor fixes its topology, and \<^verbatim>\<open>step\<close> drives the eight-phase schedule
  over the per-step attributes. Tensors, the compute kernels of the two shards, the
  criterion and the transport are external: a chunk slot either holds tensors or the
  Python value \<^verbatim>\<open>None\<close>, and every call of an external kernel is recorded in a log.
\<close>

datatype error = AssertionError | IndexError | TypeError

datatype tensors = Tensors

type_synonym slot = "tensors option"

text \<open>A pending point-to-point descriptor; the peer is a rank of the process group or \<^verbatim>\<open>None\<close>.\<close>

datatype p2p_op = Isend "int option" | Irecv "int option"

fun peer :: "p2p_op \<Rightarrow> int option" where
  "peer (Isend r) = r"
| "peer (Irecv r) = r"

text \<open>
  What the scheduler hands to the outside world, in order: the iteration line each of the
  eight loops of \<^verbatim>\<open>step\<close> logs, and the kernel calls (a shard's forward, a backward with
  the zero-bubble switch it ran under, the fused forward-backward of two chunks, a popped
  weight-gradient batch).
\<close>

datatype event =
    StepIter nat nat
  | ModuleForward nat nat
  | BackwardKernel nat nat bool
  | OverlapedForwardBackward nat nat nat nat
  | WeightPop

text \<open>The type of a shard module: its class, and whether that class has the attribute
  \<^verbatim>\<open>overlaped_forward_backward\<close>.\<close>

record module_cls =
  cls_name :: string
  cls_has_overlaped :: bool

record topo =
  overlaped_forward_backward :: bool
  num_ranks :: int
  rank :: int
  first_rank :: "int option"
  prev_rank :: "int option"
  next_rank :: "int option"
  last_rank :: "int option"
  is_first_rank :: bool
  is_last_rank :: bool
  is_in_second_half :: bool
  is_middle_rank :: bool

text \<open>
  The per-step attributes of the object, the class-level \<^verbatim>\<open>WeightGradStore\<close> and the log.
  The two-element tuples and lists indexed by the physical phase are pairs.
\<close>

record sched =
  forward_only :: bool
  return_outputs :: bool
  num_half_ranks :: int
  half_rank :: int
  input_chunks :: "slot list \<times> slot list"
  output_chunks :: "slot list \<times> slot list"
  input_grad_chunks :: "slot list \<times> slot list"
  output_grad_chunks :: "slot list \<times> slot list"
  labels :: "(slot list \<times> slot list) option"
  loss_chunks :: "tensors list"
  criterion :: bool
  current_f_chunk_id :: "nat \<times> nat"
  current_b_chunk_id :: "nat \<times> nat"
  current_send_f_chunk_id :: "nat \<times> nat"
  current_send_b_chunk_id :: "nat \<times> nat"
  current_recv_f_chunk_id :: "nat \<times> nat"
  current_recv_b_chunk_id :: "nat \<times> nat"
  comm_ops :: "p2p_op list"
  to_free :: "(nat \<times> nat) list"
  wgs_enabled :: bool
  wgs_cache :: "(nat \<times> nat) list"
  wgs_funcs_queue :: "(nat \<times> nat) list list"
  log :: "event list"

type_synonym result = "(error \<times> sched) + sched"

subsection \<open>Indexing\<close>

text \<open>Element \<open>p\<close> of a two-element tuple or list, for \<open>p < 2\<close> (the callers raise
  \<^verbatim>\<open>IndexError\<close> before they get here otherwise).\<close>

definition pick :: "nat \<Rightarrow> 'a \<times> 'a \<Rightarrow> 'a" where
  "pick p xs = (if p = 0 then fst xs else snd xs)"

definition put :: "nat \<Rightarrow> ('a \<Rightarrow> 'a) \<Rightarrow> 'a \<times> 'a \<Rightarrow> 'a \<times> 'a" where
  "put p f xs = (if p = 0 then (f (fst xs), snd xs) else (fst xs, f (snd xs)))"

text \<open>Python list indexing: an index below zero counts from the end of the list, and an
  index outside \<open>-len \<le> i < len\<close> raises \<^verbatim>\<open>IndexError\<close>.\<close>

definition py_index :: "nat \<Rightarrow> int \<Rightarrow> nat option" where
  "py_index len i =
     (if 0 \<le> i \<and> i < int len then Some (nat i)
      else if i < 0 \<and> - int len \<le> i then Some (nat (int len + i))
      else None)"

definition py_get :: "'a list \<Rightarrow> int \<Rightarrow> error + 'a" where
  "py_get xs i =
     (case py_index (length xs) i of None \<Rightarrow> Inl IndexError | Some k \<Rightarrow> Inr (xs ! k))"

definition py_set :: "'a list \<Rightarrow> int \<Rightarrow> 'a \<Rightarrow> error + 'a list" where
  "py_set xs i v =
     (case py_index (length xs) i of None \<Rightarrow> Inl IndexError | Some k \<Rightarrow> Inr (xs[k := v]))"

section \<open>The constructor\<close>

text \<open>The loop \<^verbatim>\<open>for i in range(num_ranks): rank_inverse_mapping[rank_mapping[i]] = i\<close>.\<close>

fun inverse_loop :: "int list \<Rightarrow> nat list \<Rightarrow> int option list \<Rightarrow> error + int option list" where
  "inverse_loop rm [] rim = Inr rim"
| "inverse_loop rm (i # is) rim =
     (case py_get rm (int i) of
        Inl e \<Rightarrow> Inl e
      | Inr r \<Rightarrow>
          (case py_set rim r (Some (int i)) of
             Inl e \<Rightarrow> Inl e
           | Inr rim' \<Rightarrow> inverse_loop rm is rim'))"

text \<open>
  \<^verbatim>\<open>DualPipe.__init__\<close>. \<open>on_device\<close> is the outcome of the device assertion, \<open>gsize\<close> and
  \<open>grank\<close> are \<^verbatim>\<open>group.size()\<close> and \<^verbatim>\<open>group.rank()\<close>.
\<close>

definition init ::
  "bool \<Rightarrow> module_cls \<times> module_cls \<Rightarrow> int \<Rightarrow> int \<Rightarrow> int list option \<Rightarrow> error + topo" where
  "init on_device modules gsize grank rank_mapping =
     (if \<not> on_device then Inl AssertionError else
      let ofb = (fst modules = snd modules \<and> cls_has_overlaped (fst modules));
          n = gsize;
          rm = (case rank_mapping of None \<Rightarrow> map int [0..<nat n] | Some m \<Rightarrow> m)
      in case inverse_loop rm [0..<nat n] (replicate (nat (n + 1)) None) of
           Inl e \<Rightarrow> Inl e
         | Inr rim \<Rightarrow>
         (case py_get rm grank of Inl e \<Rightarrow> Inl e | Inr r \<Rightarrow>
         (case py_get rim 0 of Inl e \<Rightarrow> Inl e | Inr fr \<Rightarrow>
         (case py_get rim (r - 1) of Inl e \<Rightarrow> Inl e | Inr pr \<Rightarrow>
         (case py_get rim (r + 1) of Inl e \<Rightarrow> Inl e | Inr nr \<Rightarrow>
         (case py_get rim (n - 1) of Inl e \<Rightarrow> Inl e | Inr lr \<Rightarrow>
            Inr \<lparr> overlaped_forward_backward = ofb,
                  num_ranks = n,
                  rank = r,
                  first_rank = fr,
                  prev_rank = pr,
                  next_rank = nr,
                  last_rank = lr,
                  is_first_rank = (r = 0),
                  is_last_rank = (r = n - 1),
                  is_in_second_half = (r \<ge> n div 2),
                  is_middle_rank = (n > 2 \<and> (r = n div 2 - 1 \<or> r = n div 2)) \<rparr>))))))"

section \<open>The weight-gradient store\<close>

text \<open>
  Modelled from the spec: \<^verbatim>\<open>WeightGradStore\<close> of \<^verbatim>\<open>dualpipe/utils.py\<close>, which is not among
  the sources. It is a FIFO queue of deferred weight-gradient units behind an on/off
  switch: a backward kernel that runs while the switch is on defers its unit into the
  store, \<^verbatim>\<open>flush\<close> makes what has been deferred since the last flush ready as the next
  queue entry, \<^verbatim>\<open>pop\<close> asserts that the queue is not empty and executes its oldest entry,
  and \<^verbatim>\<open>clear\<close> empties the store.
\<close>

definition wgs_clear :: "sched \<Rightarrow> sched" where
  "wgs_clear s = s\<lparr>wgs_cache := [], wgs_funcs_queue := []\<rparr>"

definition wgs_put :: "nat \<times> nat \<Rightarrow> sched \<Rightarrow> sched" where
  "wgs_put u s = (if wgs_enabled s then s\<lparr>wgs_cache := wgs_cache s @ [u]\<rparr> else s)"

definition wgs_flush :: "sched \<Rightarrow> sched" where
  "wgs_flush s = s\<lparr>wgs_funcs_queue := wgs_funcs_queue s @ [wgs_cache s], wgs_cache := []\<rparr>"

definition wgs_pop :: "sched \<Rightarrow> result" where
  "wgs_pop s =
     (if wgs_funcs_queue s = [] then Inl (AssertionError, s)
      else Inr (s\<lparr>wgs_funcs_queue := tl (wgs_funcs_queue s), log := log s @ [WeightPop]\<rparr>))"

section \<open>The methods of the scheduler\<close>

definition reset_states :: "sched \<Rightarrow> sched" where
  "reset_states s =
     (wgs_clear s)\<lparr>
        input_chunks := ([], []),
        output_chunks := ([], []),
        input_grad_chunks := ([], []),
        output_grad_chunks := ([], []),
        labels := None,
        loss_chunks := [],
        criterion := False,
        current_f_chunk_id := (0, 0),
        current_b_chunk_id := (0, 0),
        current_send_f_chunk_id := (0, 0),
        current_send_b_chunk_id := (0, 0),
        current_recv_f_chunk_id := (0, 0),
        current_recv_b_chunk_id := (0, 0),
        comm_ops := [],
        to_free := []\<rparr>"

text \<open>\<^verbatim>\<open>phase ^= self.is_in_second_half\<close>: the physical shard of a logical direction.\<close>

definition phys :: "topo \<Rightarrow> nat \<Rightarrow> nat" where
  "phys t phase = phase XOR of_bool (is_in_second_half t)"

definition is_first_stage :: "topo \<Rightarrow> nat \<Rightarrow> bool" where
  "is_first_stage t p = ((is_first_rank t \<and> p = 0) \<or> (is_last_rank t \<and> p = 1))"

definition is_last_stage :: "topo \<Rightarrow> nat \<Rightarrow> bool" where
  "is_last_stage t p = ((is_first_rank t \<and> p = 1) \<or> (is_last_rank t \<and> p = 0))"

text \<open>The tail of \<^verbatim>\<open>_forward_compute_chunk\<close>, after the module has been called on chunk
  \<open>c\<close> of physical phase \<open>p\<close>: the loss on a last stage, then the outputs.\<close>

definition forward_post :: "topo \<Rightarrow> nat \<Rightarrow> nat \<Rightarrow> sched \<Rightarrow> result" where
  "forward_post t p c s =
     (let keep = (\<lambda>s'. if \<not> is_last_stage t p \<or> return_outputs s'
                        then s'\<lparr>output_chunks := put p (\<lambda>q. q @ [Some Tensors]) (output_chunks s')\<rparr>
                        else s')
      in if is_last_stage t p \<and> criterion s then
           (case labels s of
              None \<Rightarrow> Inl (TypeError, s)
            | Some ls \<Rightarrow>
                if length (pick p ls) \<le> c then Inl (IndexError, s)
                else Inr (keep (s\<lparr>loss_chunks := loss_chunks s @ [Tensors]\<rparr>)))
         else Inr (keep s))"

definition forward_compute_chunk :: "topo \<Rightarrow> nat \<Rightarrow> sched \<Rightarrow> result" where
  "forward_compute_chunk t phase s =
     (let p = phys t phase in
      if 2 \<le> p then Inl (IndexError, s) else
      let c = pick p (current_f_chunk_id s);
          s1 = s\<lparr>current_f_chunk_id := put p Suc (current_f_chunk_id s)\<rparr>
      in if length (pick p (input_chunks s1)) \<le> c then Inl (IndexError, s1) else
      let inputs = pick p (input_chunks s1) ! c;
          s2 = (if forward_only s1
                then s1\<lparr>input_chunks := put p (\<lambda>q. q[c := None]) (input_chunks s1)\<rparr>
                else s1)
      in if inputs = None then Inl (TypeError, s2)
         else forward_post t p c (s2\<lparr>log := log s2 @ [ModuleForward p c]\<rparr>))"

text \<open>The tail of \<^verbatim>\<open>_backward_compute_chunk\<close> and of the fused path: the input gradients
  of chunk \<open>c\<close>.\<close>

definition backward_post :: "nat \<Rightarrow> nat \<Rightarrow> sched \<Rightarrow> result" where
  "backward_post p c s =
     (if length (pick p (input_chunks s)) \<le> c then Inl (IndexError, s) else
      let inputs = pick p (input_chunks s) ! c;
          s1 = s\<lparr>input_chunks := put p (\<lambda>q. q[c := None]) (input_chunks s)\<rparr>
      in if inputs = None then Inl (TypeError, s1)
         else Inr (s1\<lparr>input_grad_chunks := put p (\<lambda>q. q @ [Some Tensors]) (input_grad_chunks s1)\<rparr>))"

text \<open>Reading the outputs and the output gradients of chunk \<open>c\<close> on a stage that is not
  the last one, as both backward paths do before they call the kernel.\<close>

definition backward_pre :: "nat \<Rightarrow> nat \<Rightarrow> sched \<Rightarrow> result" where
  "backward_pre p c s =
     (if length (pick p (output_chunks s)) \<le> c then Inl (IndexError, s) else
      let outputs = pick p (output_chunks s) ! c;
          s1 = (if \<not> return_outputs s
                then s\<lparr>output_chunks := put p (\<lambda>q. q[c := None]) (output_chunks s)\<rparr>
                else s)
      in if length (pick p (output_grad_chunks s1)) \<le> c then Inl (IndexError, s1) else
      let output_grads = pick p (output_grad_chunks s1) ! c;
          s2 = s1\<lparr>output_grad_chunks := put p (\<lambda>q. q[c := None]) (output_grad_chunks s1)\<rparr>
      in if outputs = None \<or> output_grads = None then Inl (TypeError, s2) else Inr s2)"

definition backward_compute_chunk :: "topo \<Rightarrow> nat \<Rightarrow> bool \<Rightarrow> sched \<Rightarrow> result" where
  "backward_compute_chunk t phase enable_zb s =
     (if forward_only s then Inr s else
      let p = phys t phase in
      if 2 \<le> p then Inl (IndexError, s) else
      let c = pick p (current_b_chunk_id s);
          s1 = s\<lparr>current_b_chunk_id := put p Suc (current_b_chunk_id s), wgs_enabled := enable_zb\<rparr>;
          r = (if is_last_stage t p
               then (if length (loss_chunks s1) \<le> c then Inl (IndexError, s1) else Inr s1)
               else backward_pre p c s1)
      in case r of
           Inl e \<Rightarrow> Inl e
         | Inr s2 \<Rightarrow>
             let s3 = wgs_put (p, c) (s2\<lparr>log := log s2 @ [BackwardKernel p c enable_zb]\<rparr>);
                 s4 = s3\<lparr>wgs_enabled := False\<rparr>;
                 s5 = (if enable_zb then wgs_flush s4 else s4)
             in backward_post p c s5)"

definition forward_backward_compute_chunk :: "topo \<Rightarrow> nat \<Rightarrow> nat \<Rightarrow> sched \<Rightarrow> result" where
  "forward_backward_compute_chunk t phase0 phase1 s =
     (if forward_only s then forward_compute_chunk t phase0 s
      else if \<not> overlaped_forward_backward t then
        (case forward_compute_chunk t phase0 s of
           Inl e \<Rightarrow> Inl e
         | Inr s' \<Rightarrow> backward_compute_chunk t phase1 False s')
      else
      let p0 = phys t phase0 in
      if 2 \<le> p0 then Inl (IndexError, s) else
      let c0 = pick p0 (current_f_chunk_id s);
          s1 = s\<lparr>current_f_chunk_id := put p0 Suc (current_f_chunk_id s)\<rparr>
      in if length (pick p0 (input_chunks s1)) \<le> c0 then Inl (IndexError, s1) else
      let inputs0 = pick p0 (input_chunks s1) ! c0;
          last0 = is_last_stage t p0
      in if last0 \<and> criterion s1 \<and> labels s1 = None then Inl (TypeError, s1)
         else if last0 \<and> criterion s1 \<and> length (pick p0 (the (labels s1))) \<le> c0
         then Inl (IndexError, s1) else
      let p1 = phys t phase1 in
      if 2 \<le> p1 then Inl (IndexError, s1) else
      let c1 = pick p1 (current_b_chunk_id s1);
          s2 = s1\<lparr>current_b_chunk_id := put p1 Suc (current_b_chunk_id s1)\<rparr>;
          r = (if is_last_stage t p1
               then (if length (loss_chunks s2) \<le> c1 then Inl (IndexError, s2) else Inr s2)
               else backward_pre p1 c1 s2)
      in case r of
           Inl e \<Rightarrow> Inl e
         | Inr s3 \<Rightarrow>
             if inputs0 = None then Inl (TypeError, s3) else
             let s4 = wgs_put (p1, c1) (s3\<lparr>log := log s3 @ [OverlapedForwardBackward p0 c0 p1 c1]\<rparr>);
                 s5 = (if \<not> last0 \<or> return_outputs s4
                       then s4\<lparr>output_chunks := put p0 (\<lambda>q. q @ [Some Tensors]) (output_chunks s4)\<rparr>
                       else s4);
                 s6 = (if last0 \<and> criterion s5
                       then s5\<lparr>loss_chunks := loss_chunks s5 @ [Tensors]\<rparr>
                       else s5)
             in backward_post p1 c1 s6)"

definition recv_forward :: "topo \<Rightarrow> nat \<Rightarrow> sched \<Rightarrow> result" where
  "recv_forward t phase s =
     (let p = phys t phase in
      if is_first_stage t p then Inr s
      else if 2 \<le> p then Inl (IndexError, s) else
      let s1 = s\<lparr>current_recv_f_chunk_id := put p Suc (current_recv_f_chunk_id s)\<rparr>;
          prev_or_next = (if p = 0 then prev_rank t else next_rank t);
          s2 = s1\<lparr>comm_ops := comm_ops s1 @ [Irecv prev_or_next]\<rparr>
      in Inr (s2\<lparr>input_chunks := put p (\<lambda>q. q @ [Some Tensors]) (input_chunks s2)\<rparr>))"

definition send_forward :: "topo \<Rightarrow> nat \<Rightarrow> sched \<Rightarrow> result" where
  "send_forward t phase s =
     (let p = phys t phase in
      if is_last_stage t p then Inr s
      else if 2 \<le> p then Inl (IndexError, s) else
      let c = pick p (current_send_f_chunk_id s);
          s1 = s\<lparr>current_send_f_chunk_id := put p Suc (current_send_f_chunk_id s)\<rparr>
      in if length (pick p (output_chunks s1)) \<le> c then Inl (IndexError, s1) else
      let tensors = pick p (output_chunks s1) ! c
      in if tensors = None then Inl (TypeError, s1) else
      let s2 = s1\<lparr>comm_ops := comm_ops s1 @ [Isend (if p = 0 then next_rank t else prev_rank t)]\<rparr>
      in Inr (if \<not> return_outputs s2 then s2\<lparr>to_free := to_free s2 @ [(p, c)]\<rparr> else s2))"

definition recv_backward :: "topo \<Rightarrow> nat \<Rightarrow> sched \<Rightarrow> result" where
  "recv_backward t phase s =
     (if forward_only s then Inr s else
      let p = phys t phase in
      if is_last_stage t p then Inr s
      else if 2 \<le> p then Inl (IndexError, s) else
      let s1 = s\<lparr>current_recv_b_chunk_id := put p Suc (current_recv_b_chunk_id s)\<rparr>;
          s2 = s1\<lparr>comm_ops := comm_ops s1 @ [Irecv (if p = 0 then next_rank t else prev_rank t)]\<rparr>
      in Inr (s2\<lparr>output_grad_chunks := put p (\<lambda>q. q @ [Some Tensors]) (output_grad_chunks s2)\<rparr>))"

definition send_backward :: "topo \<Rightarrow> nat \<Rightarrow> sched \<Rightarrow> result" where
  "send_backward t phase s =
     (if forward_only s then Inr s else
      let p = phys t phase in
      if is_first_stage t p then Inr s
      else if 2 \<le> p then Inl (IndexError, s) else
      let c = pick p (current_send_b_chunk_id s);
          s1 = s\<lparr>current_send_b_chunk_id := put p Suc (current_send_b_chunk_id s)\<rparr>
      in if length (pick p (input_grad_chunks s1)) \<le> c then Inl (IndexError, s1) else
      let tensors = pick p (input_grad_chunks s1) ! c;
          s2 = s1\<lparr>input_grad_chunks := put p (\<lambda>q. q[c := None]) (input_grad_chunks s1)\<rparr>
      in if tensors = None then Inl (TypeError, s2)
         else Inr (s2\<lparr>comm_ops := comm_ops s2 @ [Isend (if p = 0 then prev_rank t else next_rank t)]\<rparr>))"

definition commit_and_wait_comm :: "sched \<Rightarrow> sched" where
  "commit_and_wait_comm s = (if comm_ops s = [] then s else s\<lparr>comm_ops := [], to_free := []\<rparr>)"

definition weight_chunk :: "sched \<Rightarrow> result" where
  "weight_chunk s = (if forward_only s then Inr s else wgs_pop (commit_and_wait_comm s))"

section \<open>The schedule\<close>

text \<open>
  Inside \<^verbatim>\<open>step\<close> the control flow depends on the topology and on \<^verbatim>\<open>num_chunks\<close> only, so
  the body of \<^verbatim>\<open>step\<close> is a sequence of calls of the methods above, in the order the eight
  loops make them. \<open>LogIter k i\<close> is the line a loop logs at the start of iteration \<open>i\<close>
  of \<^verbatim>\<open>Step k\<close>.
\<close>

datatype action =
    RecvForward nat
  | SendForward nat
  | RecvBackward nat
  | SendBackward nat
  | CommitAndWaitComm
  | ForwardComputeChunk nat
  | BackwardComputeChunk nat bool
  | ForwardBackwardComputeChunk nat nat
  | WeightChunk
  | LogIter nat nat

fun exec :: "topo \<Rightarrow> action \<Rightarrow> sched \<Rightarrow> result" where
  "exec t (RecvForward phase) s = recv_forward t phase s"
| "exec t (SendForward phase) s = send_forward t phase s"
| "exec t (RecvBackward phase) s = recv_backward t phase s"
| "exec t (SendBackward phase) s = send_backward t phase s"
| "exec t CommitAndWaitComm s = Inr (commit_and_wait_comm s)"
| "exec t (ForwardComputeChunk phase) s = forward_compute_chunk t phase s"
| "exec t (BackwardComputeChunk phase enable_zb) s = backward_compute_chunk t phase enable_zb s"
| "exec t (ForwardBackwardComputeChunk phase0 phase1) s =
     forward_backward_compute_chunk t phase0 phase1 s"
| "exec t WeightChunk s = weight_chunk s"
| "exec t (LogIter k i) s = Inr (s\<lparr>log := log s @ [StepIter k i]\<rparr>)"

text \<open>A sequence of calls stops at the first one that raises.\<close>

fun run :: "topo \<Rightarrow> action list \<Rightarrow> sched \<Rightarrow> result" where
  "run t [] s = Inr s"
| "run t (a # as) s = (case exec t a s of Inl e \<Rightarrow> Inl e | Inr s' \<Rightarrow> run t as s')"

definition forward_chunk :: "nat \<Rightarrow> bool \<Rightarrow> bool \<Rightarrow> action list" where
  "forward_chunk phase recv send =
     (if recv then [RecvForward phase] else [])
     @ [CommitAndWaitComm, ForwardComputeChunk phase]
     @ (if send then [SendForward phase] else [])"

definition backward_chunk :: "nat \<Rightarrow> bool \<Rightarrow> bool \<Rightarrow> bool \<Rightarrow> action list" where
  "backward_chunk phase enable_zb recv send =
     (if recv then [RecvBackward phase] else [])
     @ [CommitAndWaitComm, BackwardComputeChunk phase enable_zb]
     @ (if send then [SendBackward phase] else [])"

definition forward_backward_chunk :: "nat \<Rightarrow> nat \<Rightarrow> bool \<Rightarrow> action list" where
  "forward_backward_chunk phase0 phase1 recv0 =
     (if recv0 then [RecvForward phase0] else [])
     @ [RecvBackward phase1, CommitAndWaitComm, ForwardBackwardComputeChunk phase0 phase1,
        SendForward phase0, SendBackward phase1]"

text \<open>\<^verbatim>\<open>for i in range(n)\<close> with the body \<open>body i\<close>.\<close>

definition for_range :: "int \<Rightarrow> (nat \<Rightarrow> action list) \<Rightarrow> action list" where
  "for_range n body = concat (map body [0..<nat n])"

text \<open>Step 1: nF0.\<close>

definition step_1 :: "int \<Rightarrow> int \<Rightarrow> action list" where
  "step_1 nhr hr =
     for_range ((nhr - hr - 1) * 2) (\<lambda>i. LogIter 1 i # forward_chunk 0 True True)"

text \<open>Step 2: nF0F1.\<close>

definition step_2 :: "bool \<Rightarrow> int \<Rightarrow> action list" where
  "step_2 middle hr =
     RecvForward 0 #
     for_range (hr + 1) (\<lambda>i.
       LogIter 2 i #
       forward_chunk 0 False middle
       @ [RecvForward 0]
       @ forward_chunk 1 True (\<not> middle \<or> int i < (hr + 1) - 1)
       @ (if \<not> middle then [SendForward 0] else []))"

text \<open>Step 3: nB1W1F1, with zero bubble.\<close>

definition step_3 :: "int \<Rightarrow> int \<Rightarrow> action list" where
  "step_3 nhr hr =
     for_range (nhr - hr - 1) (\<lambda>i.
       LogIter 3 i #
       backward_chunk 1 True True True
       @ [RecvForward 1, WeightChunk]
       @ forward_chunk 1 False True)"

text \<open>Step 4, the main step: nF0B1F1B0.\<close>

definition step_4 :: "bool \<Rightarrow> int \<Rightarrow> int \<Rightarrow> int \<Rightarrow> action list" where
  "step_4 middle nr hr hnc =
     for_range (hnc - nr + hr + 1) (\<lambda>i.
       LogIter 4 i #
       (if i = 0 then
          (if middle then
             forward_chunk 0 False False
             @ [SendForward 1]
             @ backward_chunk 1 False True False
             @ [SendForward 0, SendBackward 1]
           else forward_backward_chunk 0 1 False)
        else forward_backward_chunk 0 1 True)
       @ forward_backward_chunk 1 0 True)"

text \<open>Step 5: nB1F1B0.\<close>

definition step_5 :: "int \<Rightarrow> int \<Rightarrow> action list" where
  "step_5 nhr hr =
     for_range (nhr - hr - 1) (\<lambda>i.
       LogIter 5 i #
       backward_chunk 1 False True True
       @ forward_backward_chunk 1 0 True)"

text \<open>Step 6: nB1B0. The local variable \<^verbatim>\<open>enable_zb\<close> is carried from one iteration to the
  next.\<close>

fun step_6_loop :: "nat list \<Rightarrow> int \<Rightarrow> int \<Rightarrow> bool \<Rightarrow> action list" where
  "step_6_loop [] n hr enable_zb = []"
| "step_6_loop (i # is) n hr enable_zb =
     (let zb1 = (if int i = n div 2 \<and> hr mod 2 = 1 then True else enable_zb);
          zb2 = (if int i = n div 2 \<and> hr mod 2 = 0 then True else zb1)
      in LogIter 6 i #
         backward_chunk 1 zb1 True True
         @ backward_chunk 0 zb2 True True
         @ step_6_loop is n hr zb2)"

definition step_6 :: "int \<Rightarrow> action list" where
  "step_6 hr = step_6_loop [0..<nat (hr + 1)] (hr + 1) hr False"

text \<open>Step 7: nWB0, with zero bubble.\<close>

definition step_7 :: "int \<Rightarrow> int \<Rightarrow> action list" where
  "step_7 nhr hr =
     for_range (nhr - hr - 1) (\<lambda>i. LogIter 7 i # WeightChunk # backward_chunk 0 True True True)"

text \<open>Step 8: nW.\<close>

definition step_8 :: "int \<Rightarrow> action list" where
  "step_8 hr = for_range (hr + 1) (\<lambda>i. [LogIter 8 i, WeightChunk])"

definition schedule :: "topo \<Rightarrow> int \<Rightarrow> action list" where
  "schedule t num_chunks =
     (let nr = num_ranks t;
          nhr = nr div 2;
          hr = min (rank t) (nr - 1 - rank t);
          hnc = num_chunks div 2
      in step_1 nhr hr @ step_2 (is_middle_rank t) hr @ step_3 nhr hr
         @ step_4 (is_middle_rank t) nr hr hnc @ step_5 nhr hr @ step_6 hr
         @ step_7 nhr hr @ step_8 hr)"

section \<open>The entry point\<close>

text \<open>
  The arguments of \<^verbatim>\<open>step\<close> and what it reads from its environment: whether
  \<^verbatim>\<open>comm.TENSOR_SHAPES\<close> and \<^verbatim>\<open>comm.TENSOR_DTYPE\<close> are set, \<^verbatim>\<open>torch.is_grad_enabled()\<close>,
  whether a criterion is given, and the micro-batches \<^verbatim>\<open>scatter\<close> returns for the inputs
  and for the labels (\<^verbatim>\<open>scatter\<close> belongs to \<^verbatim>\<open>dualpipe/utils.py\<close>).
\<close>

record step_args =
  shapes_set :: bool
  dtype_set :: bool
  grad_enabled :: bool
  arg_num_chunks :: int
  arg_criterion :: bool
  arg_return_outputs :: bool
  scattered_inputs :: "slot list"
  scattered_labels :: "slot list"

type_synonym step_ret = "tensors list option \<times> slot list option"

text \<open>The lines of \<^verbatim>\<open>step\<close> after the eighth loop.\<close>

definition step_end :: "topo \<Rightarrow> step_args \<Rightarrow> sched \<Rightarrow> (error \<times> sched) + (step_ret \<times> sched)" where
  "step_end t a s =
     (if wgs_funcs_queue s \<noteq> [] then Inl (AssertionError, s) else
      let s1 = commit_and_wait_comm s;
          ends = (is_first_rank t \<or> is_last_rank t);
          loss = (if ends \<and> arg_criterion a then Some (loss_chunks s1) else None);
          outputs = (if ends \<and> arg_return_outputs a
                     then Some (pick (of_bool (is_first_rank t)) (output_chunks s1))
                     else None)
      in Inr ((loss, outputs), reset_states s1))"

text \<open>The lines of \<^verbatim>\<open>step\<close> between the last assertion and the first loop.\<close>

definition step_begin :: "topo \<Rightarrow> step_args \<Rightarrow> sched \<Rightarrow> sched" where
  "step_begin t a s =
     (let s1 = reset_states s;
          s2 = (if is_first_rank t then
                  s1\<lparr>input_chunks := (scattered_inputs a, []),
                     labels := Some ([], scattered_labels a)\<rparr>
                else if is_last_rank t then
                  s1\<lparr>input_chunks := ([], scattered_inputs a),
                     labels := Some (scattered_labels a, [])\<rparr>
                else s1)
      in s2\<lparr>criterion := arg_criterion a\<rparr>)"

definition step :: "topo \<Rightarrow> step_args \<Rightarrow> sched \<Rightarrow> (error \<times> sched) + (step_ret \<times> sched)" where
  "step t a s =
     (if \<not> (shapes_set a \<and> dtype_set a) then Inl (AssertionError, s) else
      let s1 = s\<lparr>forward_only := \<not> grad_enabled a, return_outputs := arg_return_outputs a\<rparr>;
          nc = arg_num_chunks a
      in if num_ranks t mod 2 \<noteq> 0 then Inl (AssertionError, s1)
         else if \<not> (nc > 0 \<and> nc mod 2 = 0 \<and> nc \<ge> num_ranks t * 2) then Inl (AssertionError, s1)
         else
      let s2 = s1\<lparr>num_half_ranks := num_ranks t div 2,
                   half_rank := min (rank t) (num_ranks t - 1 - rank t)\<rparr>
      in if \<not> forward_only s2 \<and> (is_first_rank t \<or> is_last_rank t) \<and> \<not> arg_criterion a
         then Inl (AssertionError, s2)
         else
           (case run t (schedule t nc) (step_begin t a s2) of
              Inl e \<Rightarrow> Inl e
            | Inr s3 \<Rightarrow> step_end t a s3))"

section \<open>Example inputs\<close>

text \<open>A shard class without the fused operation, and two different classes with it.\<close>

definition shard_cls :: module_cls where
  "shard_cls = \<lparr>cls_name = ''Shard'', cls_has_overlaped = False\<rparr>"

definition fused_cls :: module_cls where
  "fused_cls = \<lparr>cls_name = ''FusedShard'', cls_has_overlaped = True\<rparr>"

definition other_fused_cls :: module_cls where
  "other_fused_cls = \<lparr>cls_name = ''OtherFusedShard'', cls_has_overlaped = True\<rparr>"

text \<open>The attributes as a training step without \<^verbatim>\<open>return_outputs\<close> leaves them, with an
  empty log.\<close>

definition idle :: sched where
  "idle = \<lparr> forward_only = False, return_outputs = False, num_half_ranks = 0, half_rank = 0,
     input_chunks = ([], []), output_chunks = ([], []),
     input_grad_chunks = ([], []), output_grad_chunks = ([], []),
     labels = None, loss_chunks = [], criterion = False,
     current_f_chunk_id = (0, 0), current_b_chunk_id = (0, 0),
     current_send_f_chunk_id = (0, 0), current_send_b_chunk_id = (0, 0),
     current_recv_f_chunk_id = (0, 0), current_recv_b_chunk_id = (0, 0),
     comm_ops = [], to_free = [], wgs_enabled = False, wgs_cache = [], wgs_funcs_queue = [],
     log = [] \<rparr>"

text \<open>A call of \<^verbatim>\<open>step\<close> with a criterion, \<open>nc\<close> chunks and \<open>nc div 2\<close> micro-batches of
  inputs and of labels, with or without gradient tracking.\<close>

definition example_args :: "bool \<Rightarrow> int \<Rightarrow> step_args" where
  "example_args grad nc =
     \<lparr> shapes_set = True, dtype_set = True, grad_enabled = grad, arg_num_chunks = nc,
       arg_criterion = True, arg_return_outputs = False,
       scattered_inputs = replicate (nat (nc div 2)) (Some Tensors),
       scattered_labels = replicate (nat (nc div 2)) (Some Tensors) \<rparr>"

text \<open>The topology the constructor computes on rank \<open>r\<close> of a group of \<open>n\<close> ranks with the
  identity rank mapping, for shards of class \<open>c\<close>.\<close>

definition rank_of :: "module_cls \<Rightarrow> int \<Rightarrow> int \<Rightarrow> topo" where
  "rank_of c r n =
     \<lparr>overlaped_forward_backward = cls_has_overlaped c, num_ranks = n, rank = r,
      first_rank = Some 0,
      prev_rank = (if r = 0 then None else Some (r - 1)),
      next_rank = (if r = n - 1 then None else Some (r + 1)),
      last_rank = Some (n - 1),
      is_first_rank = (r = 0), is_last_rank = (r = n - 1),
      is_in_second_half = (r \<ge> n div 2),
      is_middle_rank = (n > 2 \<and> (r = n div 2 - 1 \<or> r = n div 2))\<rparr>"

section \<open>Notions the properties are stated with\<close>

text \<open>A rank mapping is valid when it is absent or a permutation of the ranks
  \<open>0, ..., n - 1\<close>.\<close>

definition valid_rank_mapping :: "int \<Rightarrow> int list option \<Rightarrow> bool" where
  "valid_rank_mapping n rank_mapping =
     (case rank_mapping of None \<Rightarrow> True | Some m \<Rightarrow> sort m = map int [0..<nat n])"

text \<open>The state a call leaves behind, whether it returned or raised.\<close>

definition outcome_state :: "result \<Rightarrow> sched" where
  "outcome_state r = (case r of Inl (e, s) \<Rightarrow> s | Inr s \<Rightarrow> s)"

text \<open>A call on state \<open>s\<close> with outcome \<open>r\<close> keeps the pending descriptors and appends only
  descriptors whose peer is a rank.\<close>

definition posts_to_peers :: "sched \<Rightarrow> result \<Rightarrow> bool" where
  "posts_to_peers s r =
     (take (length (comm_ops s)) (comm_ops (outcome_state r)) = comm_ops s
      \<and> list_all (\<lambda>op. peer op \<noteq> None) (drop (length (comm_ops s)) (comm_ops (outcome_state r))))"

text \<open>The iteration lines of a log, as pairs of the number of the step and the iteration,
  and how many of them a step of the schedule has logged.\<close>

fun iter_of :: "event \<Rightarrow> (nat \<times> nat) list" where
  "iter_of (StepIter k i) = [(k, i)]"
| "iter_of e = []"

definition iter_lines :: "event list \<Rightarrow> (nat \<times> nat) list" where
  "iter_lines evs = concat (map iter_of evs)"

definition iteration_count :: "event list \<Rightarrow> nat \<Rightarrow> int" where
  "iteration_count evs k = int (length (filter (\<lambda>l. fst l = k) (iter_lines evs)))"

text \<open>The iteration lines a sequence of calls logs.\<close>

fun logs_of :: "action \<Rightarrow> (nat \<times> nat) list" where
  "logs_of (LogIter k i) = [(k, i)]"
| "logs_of a = []"

definition script_iters :: "action list \<Rightarrow> (nat \<times> nat) list" where
  "script_iters as = concat (map logs_of as)"

section \<open>Notions for the cursors\<close>

text \<open>The state in which \<^verbatim>\<open>step\<close> enters its first loop: the per-step attributes are set, the
  state is reset and the micro-batches are in place.\<close>

definition at_first_loop :: "topo \<Rightarrow> step_args \<Rightarrow> sched \<Rightarrow> sched" where
  "at_first_loop t a s =
     step_begin t a
       (s\<lparr>forward_only := \<not> grad_enabled a, return_outputs := arg_return_outputs a,
          num_half_ranks := num_ranks t div 2,
          half_rank := min (rank t) (num_ranks t - 1 - rank t)\<rparr>)"

text \<open>The six cursors of the physical phase \<open>p\<close>, in the order in which \<^verbatim>\<open>_reset_states\<close>
  assigns them: forward compute, backward compute, forward send, backward send, forward
  receive, backward receive.\<close>

definition cursors_at :: "nat \<Rightarrow> sched \<Rightarrow> nat list" where
  "cursors_at p s =
     map (pick p)
       [current_f_chunk_id s, current_b_chunk_id s,
        current_send_f_chunk_id s, current_send_b_chunk_id s,
        current_recv_f_chunk_id s, current_recv_b_chunk_id s]"

text \<open>The order of the cursors of a phase: what has been sent has been computed, and on a stage
  that receives its inputs (its output gradients) from a peer, what has been computed
  forward (backward) has been received.\<close>

definition cursors_ordered :: "topo \<Rightarrow> sched \<Rightarrow> bool" where
  "cursors_ordered t s =
     (\<forall>p\<in>{0, 1}.
        pick p (current_send_f_chunk_id s) \<le> pick p (current_f_chunk_id s)
      \<and> pick p (current_send_b_chunk_id s) \<le> pick p (current_b_chunk_id s)
      \<and> (is_first_stage t p \<or> pick p (current_f_chunk_id s) \<le> pick p (current_recv_f_chunk_id s))
      \<and> (is_last_stage t p \<or> pick p (current_b_chunk_id s) \<le> pick p (current_recv_b_chunk_id s)))"

text \<open>The values the six cursors of phase \<open>p\<close> have when the eighth loop ends, for \<open>h\<close> chunks
  per direction: a cursor that the methods never advance on this stage or in this mode
  stays at zero.\<close>

definition cursors_at_loops_end :: "topo \<Rightarrow> bool \<Rightarrow> nat \<Rightarrow> nat \<Rightarrow> nat list" where
  "cursors_at_loops_end t fo h p =
     [h, if fo then 0 else h,
      if is_last_stage t p then 0 else h, if fo \<or> is_first_stage t p then 0 else h,
      if is_first_stage t p then 0 else h, if fo \<or> is_last_stage t p then 0 else h]"

subsection \<open>Shapes\<close>

text \<open>The shape of a state: its six cursors and the lengths of its four chunk queues, phase by
  phase.\<close>

definition lens :: "'a list \<times> 'a list \<Rightarrow> nat \<times> nat" where
  "lens xs = (length (fst xs), length (snd xs))"

record shape =
  cf :: "nat \<times> nat"
  cb :: "nat \<times> nat"
  sf :: "nat \<times> nat"
  sb :: "nat \<times> nat"
  rf :: "nat \<times> nat"
  rb :: "nat \<times> nat"
  n_in :: "nat \<times> nat"
  n_out :: "nat \<times> nat"
  n_ingrad :: "nat \<times> nat"
  n_outgrad :: "nat \<times> nat"

definition shape_of :: "sched \<Rightarrow> shape" where
  "shape_of s = \<lparr> cf = current_f_chunk_id s, cb = current_b_chunk_id s,
     sf = current_send_f_chunk_id s, sb = current_send_b_chunk_id s,
     rf = current_recv_f_chunk_id s, rb = current_recv_b_chunk_id s,
     n_in = lens (input_chunks s), n_out = lens (output_chunks s),
     n_ingrad = lens (input_grad_chunks s), n_outgrad = lens (output_grad_chunks s) \<rparr>"

text \<open>What the calls do to a shape. A forward compute reads the input chunk under its cursor
  and appends to the outputs unless the stage is a last stage that does not return them; a
  backward compute reads, off a last stage, the output and the output gradient under its
  cursor and appends an input gradient. \<open>None\<close> stands for a call that raises.\<close>

definition sh_forward :: "topo \<Rightarrow> bool \<Rightarrow> nat \<Rightarrow> shape \<Rightarrow> shape option" where
  "sh_forward t ro p sh =
     (if 2 \<le> p \<or> pick p (n_in sh) \<le> pick p (cf sh) then None
      else Some (sh\<lparr>cf := put p Suc (cf sh),
                    n_out := (if \<not> is_last_stage t p \<or> ro then put p Suc (n_out sh) else n_out sh)\<rparr>))"

definition sh_backward :: "topo \<Rightarrow> nat \<Rightarrow> shape \<Rightarrow> shape option" where
  "sh_backward t p sh =
     (if 2 \<le> p then None
      else if \<not> is_last_stage t p
              \<and> (pick p (n_out sh) \<le> pick p (cb sh) \<or> pick p (n_outgrad sh) \<le> pick p (cb sh))
      then None
      else Some (sh\<lparr>cb := put p Suc (cb sh), n_ingrad := put p Suc (n_ingrad sh)\<rparr>))"

fun shape_step :: "topo \<Rightarrow> bool \<Rightarrow> bool \<Rightarrow> action \<Rightarrow> shape \<Rightarrow> shape option" where
  "shape_step t fo ro (ForwardComputeChunk ph) sh = sh_forward t ro (phys t ph) sh"
| "shape_step t fo ro (BackwardComputeChunk ph zb) sh =
     (if fo then Some sh else sh_backward t (phys t ph) sh)"
| "shape_step t fo ro (ForwardBackwardComputeChunk p0 p1) sh =
     (if fo then sh_forward t ro (phys t p0) sh
      else case sh_forward t ro (phys t p0) sh of
             None \<Rightarrow> None
           | Some sh1 \<Rightarrow> sh_backward t (phys t p1) sh1)"
| "shape_step t fo ro (RecvForward ph) sh =
     (let p = phys t ph in
      if is_first_stage t p then Some sh
      else if 2 \<le> p then None
      else Some (sh\<lparr>rf := put p Suc (rf sh), n_in := put p Suc (n_in sh)\<rparr>))"
| "shape_step t fo ro (SendForward ph) sh =
     (let p = phys t ph in
      if is_last_stage t p then Some sh
      else if 2 \<le> p \<or> pick p (n_out sh) \<le> pick p (sf sh) then None
      else Some (sh\<lparr>sf := put p Suc (sf sh)\<rparr>))"
| "shape_step t fo ro (RecvBackward ph) sh =
     (let p = phys t ph in
      if fo \<or> is_last_stage t p then Some sh
      else if 2 \<le> p then None
      else Some (sh\<lparr>rb := put p Suc (rb sh), n_outgrad := put p Suc (n_outgrad sh)\<rparr>))"
| "shape_step t fo ro (SendBackward ph) sh =
     (let p = phys t ph in
      if fo \<or> is_first_stage t p then Some sh
      else if 2 \<le> p \<or> pick p (n_ingrad sh) \<le> pick p (sb sh) then None
      else Some (sh\<lparr>sb := put p Suc (sb sh)\<rparr>))"
| "shape_step t fo ro a sh = Some sh"

(* ---- lemmas ---- *)

text \<open>The invariant of a phase that orders its cursors: it ties the queue lengths to the
  cursors that count what was appended to them.\<close>

definition ph_inv :: "topo \<Rightarrow> shape \<Rightarrow> nat \<Rightarrow> bool" where
  "ph_inv t sh p =
     (pick p (sf sh) \<le> pick p (cf sh)
      \<and> pick p (sb sh) \<le> pick p (cb sh)
      \<and> pick p (n_ingrad sh) = pick p (cb sh)
      \<and> (\<not> is_first_stage t p \<longrightarrow>
           pick p (cf sh) \<le> pick p (rf sh) \<and> pick p (n_in sh) = pick p (rf sh))
      \<and> (\<not> is_last_stage t p \<longrightarrow>
           pick p (cb sh) \<le> pick p (rb sh) \<and> pick p (n_outgrad sh) = pick p (rb sh)
         \<and> pick p (n_out sh) = pick p (cf sh)))"

definition sh_inv :: "topo \<Rightarrow> shape \<Rightarrow> bool" where
  "sh_inv t sh = (ph_inv t sh 0 \<and> ph_inv t sh 1)"

subsection \<open>Counting the calls that advance a cursor\<close>

datatype cursor = ComputeF | ComputeB | SendF | SendB | RecvF | RecvB

fun cursor_of :: "cursor \<Rightarrow> sched \<Rightarrow> nat \<times> nat" where
  "cursor_of ComputeF s = current_f_chunk_id s"
| "cursor_of ComputeB s = current_b_chunk_id s"
| "cursor_of SendF s = current_send_f_chunk_id s"
| "cursor_of SendB s = current_send_b_chunk_id s"
| "cursor_of RecvF s = current_recv_f_chunk_id s"
| "cursor_of RecvB s = current_recv_b_chunk_id s"

fun sh_cursor :: "cursor \<Rightarrow> shape \<Rightarrow> nat \<times> nat" where
  "sh_cursor ComputeF sh = cf sh"
| "sh_cursor ComputeB sh = cb sh"
| "sh_cursor SendF sh = sf sh"
| "sh_cursor SendB sh = sb sh"
| "sh_cursor RecvF sh = rf sh"
| "sh_cursor RecvB sh = rb sh"

text \<open>A call addresses the cursor \<open>c\<close> of the logical phase \<open>ph\<close>; the call advances it when the
  cursor is active on that stage and in that mode.\<close>

fun bumps :: "cursor \<Rightarrow> nat \<Rightarrow> action \<Rightarrow> bool" where
  "bumps ComputeF ph (ForwardComputeChunk p) = (p = ph)"
| "bumps ComputeF ph (ForwardBackwardComputeChunk p0 p1) = (p0 = ph)"
| "bumps ComputeB ph (BackwardComputeChunk p zb) = (p = ph)"
| "bumps ComputeB ph (ForwardBackwardComputeChunk p0 p1) = (p1 = ph)"
| "bumps SendF ph (SendForward p) = (p = ph)"
| "bumps SendB ph (SendBackward p) = (p = ph)"
| "bumps RecvF ph (RecvForward p) = (p = ph)"
| "bumps RecvB ph (RecvBackward p) = (p = ph)"
| "bumps c ph a = False"

fun active :: "topo \<Rightarrow> bool \<Rightarrow> cursor \<Rightarrow> nat \<Rightarrow> bool" where
  "active t fo ComputeF p = True"
| "active t fo ComputeB p = (\<not> fo)"
| "active t fo SendF p = (\<not> is_last_stage t p)"
| "active t fo SendB p = (\<not> fo \<and> \<not> is_first_stage t p)"
| "active t fo RecvF p = (\<not> is_first_stage t p)"
| "active t fo RecvB p = (\<not> fo \<and> \<not> is_last_stage t p)"

definition hits :: "cursor \<Rightarrow> nat \<Rightarrow> action list \<Rightarrow> nat" where
  "hits c ph as = length (filter (bumps c ph) as)"

section \<open>What a call leaves unchanged\<close>

lemma forward_post_frame:
  "forward_post t p c s = Inr s' \<Longrightarrow> log s' = log s \<and> forward_only s' = forward_only s"
  by (auto simp: forward_post_def Let_def split: if_splits option.splits)

lemma forward_compute_chunk_log:
  "forward_compute_chunk t ph s = Inr s' \<Longrightarrow>
     log s' = log s @ [ModuleForward (phys t ph) (pick (phys t ph) (current_f_chunk_id s))]
     \<and> forward_only s' = forward_only s"
  by (auto simp: forward_compute_chunk_def Let_def split: if_splits dest!: forward_post_frame)

lemma backward_pre_frame:
  "backward_pre p c s = Inr s' \<Longrightarrow> log s' = log s \<and> wgs_enabled s' = wgs_enabled s
     \<and> wgs_cache s' = wgs_cache s \<and> wgs_funcs_queue s' = wgs_funcs_queue s"
  by (auto simp: backward_pre_def Let_def split: if_splits)

lemma backward_post_frame:
  "backward_post p c s = Inr s' \<Longrightarrow> log s' = log s \<and> wgs_enabled s' = wgs_enabled s
     \<and> wgs_cache s' = wgs_cache s \<and> wgs_funcs_queue s' = wgs_funcs_queue s"
  by (auto simp: backward_post_def Let_def split: if_splits)

lemma backward_compute_chunk_log:
  "backward_compute_chunk t ph zb s = Inr s' \<Longrightarrow> \<not> forward_only s \<Longrightarrow>
     log s' = log s @ [BackwardKernel (phys t ph) (pick (phys t ph) (current_b_chunk_id s)) zb]"
  by (auto simp: backward_compute_chunk_def Let_def wgs_put_def wgs_flush_def
           split: if_splits sum.splits dest!: backward_post_frame backward_pre_frame)

lemma fused_log:
  "forward_backward_compute_chunk t p0 p1 s = Inr s' \<Longrightarrow> \<not> forward_only s \<Longrightarrow>
   overlaped_forward_backward t \<Longrightarrow>
     log s' = log s @ [OverlapedForwardBackward (phys t p0) (pick (phys t p0) (current_f_chunk_id s))
                         (phys t p1) (pick (phys t p1) (current_b_chunk_id s))]"
  by (auto simp: forward_backward_compute_chunk_def Let_def wgs_put_def
           split: if_splits sum.splits dest!: backward_post_frame backward_pre_frame)

section \<open>The frame of the schedule inside a step\<close>

lemma step_begin_store: "wgs_funcs_queue (step_begin t a s) = [] \<and> wgs_cache (step_begin t a s) = []"
  by (simp add: step_begin_def reset_states_def wgs_clear_def Let_def)

lemma step_end_Inr:
  "step_end t a s = Inr (r, s') \<Longrightarrow> wgs_funcs_queue s = [] \<and> s' = reset_states (commit_and_wait_comm s)"
  by (auto simp: step_end_def Let_def split: if_splits)

lemma step_Inr:
  assumes "step t a s = Inr (r, s')"
  shows "\<exists>s3. run t (schedule t (arg_num_chunks a))
               (step_begin t a
                  (s\<lparr>forward_only := \<not> grad_enabled a, return_outputs := arg_return_outputs a,
                     num_half_ranks := num_ranks t div 2,
                     half_rank := min (rank t) (num_ranks t - 1 - rank t)\<rparr>)) = Inr s3
             \<and> step_end t a s3 = Inr (r, s')"
  using assms by (auto simp: step_def Let_def split: if_splits sum.splits)

section \<open>The neighbours the constructor computes\<close>

lemma py_get_nat: "i < length xs \<Longrightarrow> py_get xs (int i) = Inr (xs ! i)"
  by (simp add: py_get_def py_index_def)

lemma py_set_nat: "0 \<le> k \<Longrightarrow> nat k < length xs \<Longrightarrow> py_set xs k v = Inr (xs[nat k := v])"
  by (auto simp: py_set_def py_index_def)

lemma inverse_loop_spec:
  assumes "\<forall>i\<in>set is. i < length rm" and "\<forall>x\<in>set rm. 0 \<le> x \<and> nat x < N" and "length rim = Suc N"
  shows "\<exists>rim'. inverse_loop rm is rim = Inr rim' \<and> length rim' = Suc N \<and> rim' ! N = rim ! N
           \<and> (\<forall>r<N. ((\<exists>i\<in>set is. rm ! i = int r) \<or> rim ! r \<noteq> None) \<longrightarrow> rim' ! r \<noteq> None)"
  using assms
proof (induction "is" arbitrary: rim)
  case Nil
  then show ?case by simp
next
  case (Cons i "is")
  let ?k = "nat (rm ! i)"
  let ?rim1 = "rim[?k := Some (int i)]"
  from Cons.prems have i: "i < length rm" by simp
  then have mem: "rm ! i \<in> set rm" by simp
  with Cons.prems have k0: "0 \<le> rm ! i" and kN: "?k < N" by auto
  have g: "py_get rm (int i) = Inr (rm ! i)" using i by (rule py_get_nat)
  have p: "py_set rim (rm ! i) (Some (int i)) = Inr ?rim1"
    by (rule py_set_nat) (use k0 kN Cons.prems(3) in simp_all)
  have "\<exists>rim'. inverse_loop rm is ?rim1 = Inr rim' \<and> length rim' = Suc N \<and> rim' ! N = ?rim1 ! N
           \<and> (\<forall>r<N. ((\<exists>i\<in>set is. rm ! i = int r) \<or> ?rim1 ! r \<noteq> None) \<longrightarrow> rim' ! r \<noteq> None)"
    by (rule Cons.IH) (use Cons.prems in simp_all)
  then obtain rim' where r: "inverse_loop rm is ?rim1 = Inr rim'" and l: "length rim' = Suc N"
    and last: "rim' ! N = ?rim1 ! N"
    and cov: "\<forall>r<N. ((\<exists>i\<in>set is. rm ! i = int r) \<or> ?rim1 ! r \<noteq> None) \<longrightarrow> rim' ! r \<noteq> None"
    by blast
  have "rim' ! N = rim ! N" using last kN by simp
  moreover have "rim' ! r \<noteq> None" if "r < N" and "(\<exists>j\<in>set (i # is). rm ! j = int r) \<or> rim ! r \<noteq> None" for r
  proof (cases "r = ?k")
    case True
    then have "?rim1 ! r \<noteq> None" using kN Cons.prems(3) by simp
    with cov that(1) show ?thesis by blast
  next
    case False
    then have "?rim1 ! r = rim ! r" by simp
    moreover have "rm ! i \<noteq> int r" using False k0 by auto
    ultimately show ?thesis using cov that by auto
  qed
  ultimately show ?case using g p r l by auto
qed


lemma py_get_mem: "py_get xs i = Inr x \<Longrightarrow> x \<in> set xs"
  by (auto simp: py_get_def py_index_def split: if_splits)

lemma py_get_last: "py_get xs (- 1) = Inr x \<Longrightarrow> x = xs ! (length xs - 1)"
  by (auto simp: py_get_def py_index_def nat_diff_distrib split: if_splits)

lemma py_get_nonneg: "0 \<le> i \<Longrightarrow> py_get xs i = Inr x \<Longrightarrow> x = xs ! nat i"
  by (auto simp: py_get_def py_index_def split: if_splits)

lemma valid_rank_mapping_list:
  assumes "valid_rank_mapping n rank_mapping"
  defines "m \<equiv> (case rank_mapping of None \<Rightarrow> map int [0..<nat n] | Some m \<Rightarrow> m)"
  shows "length m = nat n \<and> set m = int ` {0..<nat n}"
proof (cases rank_mapping)
  case None
  then show ?thesis by (simp add: m_def)
next
  case (Some m')
  with assms(1) have srt: "sort m' = map int [0..<nat n]"
    by (simp add: valid_rank_mapping_def)
  have "length m' = length (sort m')" and "set m' = set (sort m')" by simp_all
  with srt Some show ?thesis by (simp add: m_def)
qed

lemma init_peers:
  assumes ok: "init on_device modules n g rank_mapping = Inr t"
      and v: "valid_rank_mapping n rank_mapping"
  shows "num_ranks t = n \<and> 0 \<le> rank t \<and> rank t < n
       \<and> is_first_rank t = (rank t = 0) \<and> is_last_rank t = (rank t = n - 1)
       \<and> (prev_rank t = None \<longleftrightarrow> rank t = 0) \<and> (next_rank t = None \<longleftrightarrow> rank t = n - 1)"
proof -
  define m where "m = (case rank_mapping of None \<Rightarrow> map int [0..<nat n] | Some m \<Rightarrow> m)"
  have len: "length m = nat n" and st: "set m = int ` {0..<nat n}"
    using valid_rank_mapping_list [OF v] by (simp_all add: m_def)
  from ok obtain rim r fr pr nr lr where
    il: "inverse_loop m [0..<nat n] (replicate (nat (n + 1)) None) = Inr rim"
    and gr: "py_get m g = Inr r"
    and gp: "py_get rim (r - 1) = Inr pr"
    and gn: "py_get rim (r + 1) = Inr nr"
    and t: "rank t = r" "num_ranks t = n" "prev_rank t = pr" "next_rank t = nr"
           "is_first_rank t = (r = 0)" "is_last_rank t = (r = n - 1)"
    by (auto simp: init_def Let_def m_def split: if_splits sum.splits)
  from py_get_mem [OF gr] st have r0: "0 \<le> r" and rn: "r < n" by auto
  then have n1: "nat (n + 1) = Suc (nat n)" by simp
  have rl: "replicate (nat (n + 1)) (None :: int option) ! nat n = None"
    by (simp only: n1 nth_replicate lessI)
  have "\<exists>rim'. inverse_loop m [0..<nat n] (replicate (nat (n + 1)) None) = Inr rim'
           \<and> length rim' = Suc (nat n) \<and> rim' ! nat n = replicate (nat (n + 1)) None ! nat n
           \<and> (\<forall>r<nat n. ((\<exists>i\<in>set [0..<nat n]. m ! i = int r)
                    \<or> replicate (nat (n + 1)) (None :: int option) ! r \<noteq> None)
                 \<longrightarrow> rim' ! r \<noteq> None)"
    by (rule inverse_loop_spec [where N = "nat n"]) (use len st n1 in auto)
  then obtain rim' where a: "inverse_loop m [0..<nat n] (replicate (nat (n + 1)) None) = Inr rim'"
    and lrim': "length rim' = Suc (nat n)"
    and c: "rim' ! nat n = replicate (nat (n + 1)) None ! nat n"
    and d: "\<forall>r<nat n. ((\<exists>i\<in>set [0..<nat n]. m ! i = int r)
                    \<or> replicate (nat (n + 1)) (None :: int option) ! r \<noteq> None)
                 \<longrightarrow> rim' ! r \<noteq> None"
    by blast
  from a il have same: "rim' = rim" by simp
  have lrim: "length rim = Suc (nat n)" using lrim' same by simp
  have last: "rim ! nat n = None" using c rl same by simp
  have cov: "rim ! k \<noteq> None" if "k < nat n" and "\<exists>i<nat n. m ! i = int k" for k
    using d that same by auto
  have full: "rim ! k \<noteq> None" if "k < nat n" for k
  proof -
    from that st have "int k \<in> set m" by auto
    then obtain i where "i < length m" "m ! i = int k" by (auto simp: in_set_conv_nth)
    with len cov [OF that] show ?thesis by auto
  qed
  have prev: "pr = None \<longleftrightarrow> r = 0"
  proof (cases "r = 0")
    case True
    with gp have "py_get rim (- 1) = Inr pr" by simp
    from py_get_last [OF this] lrim last True show ?thesis by simp
  next
    case False
    with r0 rn have lt: "nat (r - 1) < nat n" and nn: "0 \<le> r - 1" by simp_all
    from py_get_nonneg [OF nn gp] full [OF lt] False show ?thesis by simp
  qed
  have nxt: "nr = None \<longleftrightarrow> r = n - 1"
  proof (cases "r = n - 1")
    case True
    then have "nat (r + 1) = nat n" by simp
    with py_get_nonneg [OF _ gn] r0 last True show ?thesis by simp
  next
    case False
    with r0 rn have lt: "nat (r + 1) < nat n" and nn: "0 \<le> r + 1" by simp_all
    from py_get_nonneg [OF nn gn] full [OF lt] False show ?thesis by simp
  qed
  show ?thesis using t r0 rn prev nxt by simp
qed


lemma recv_forward_posts:
  assumes "prev_rank t = None \<longleftrightarrow> is_first_rank t" "next_rank t = None \<longleftrightarrow> is_last_rank t"
  shows "posts_to_peers s (recv_forward t phase s)"
  using assms
  by (auto simp: recv_forward_def Let_def is_first_stage_def not_le less_2_cases_iff
                 posts_to_peers_def outcome_state_def)

lemma send_forward_posts:
  assumes "prev_rank t = None \<longleftrightarrow> is_first_rank t" "next_rank t = None \<longleftrightarrow> is_last_rank t"
  shows "posts_to_peers s (send_forward t phase s)"
  using assms
  by (auto simp: send_forward_def Let_def is_last_stage_def not_le less_2_cases_iff
                 posts_to_peers_def outcome_state_def)

lemma recv_backward_posts:
  assumes "prev_rank t = None \<longleftrightarrow> is_first_rank t" "next_rank t = None \<longleftrightarrow> is_last_rank t"
  shows "posts_to_peers s (recv_backward t phase s)"
  using assms
  by (auto simp: recv_backward_def Let_def is_last_stage_def not_le less_2_cases_iff
                 posts_to_peers_def outcome_state_def)

lemma send_backward_posts:
  assumes "prev_rank t = None \<longleftrightarrow> is_first_rank t" "next_rank t = None \<longleftrightarrow> is_last_rank t"
  shows "posts_to_peers s (send_backward t phase s)"
  using assms
  by (auto simp: send_backward_def Let_def is_first_stage_def not_le less_2_cases_iff
                 posts_to_peers_def outcome_state_def)

section \<open>The iteration lines a run logs\<close>

lemma iter_lines_simps [simp]:
  "iter_lines [] = []"
  "iter_lines (e # evs) = iter_of e @ iter_lines evs"
  "iter_lines (evs @ evs') = iter_lines evs @ iter_lines evs'"
  by (simp_all add: iter_lines_def)

lemma script_iters_simps [simp]:
  "script_iters [] = []"
  "script_iters (a # as) = logs_of a @ script_iters as"
  "script_iters (as @ bs) = script_iters as @ script_iters bs"
  by (simp_all add: script_iters_def)

lemma script_iters_concat: "script_iters (concat xss) = concat (map script_iters xss)"
  by (induction xss) simp_all

lemma script_iters_for_range:
  "script_iters (for_range n body) = concat (map (\<lambda>i. script_iters (body i)) [0..<nat n])"
  by (simp add: for_range_def script_iters_concat o_def)

lemma recv_forward_log: "recv_forward t ph s = Inr s' \<Longrightarrow> log s' = log s"
  by (auto simp: recv_forward_def Let_def split: if_splits)

lemma send_forward_log: "send_forward t ph s = Inr s' \<Longrightarrow> log s' = log s"
  by (auto simp: send_forward_def Let_def split: if_splits)

lemma recv_backward_log: "recv_backward t ph s = Inr s' \<Longrightarrow> log s' = log s"
  by (auto simp: recv_backward_def Let_def split: if_splits)

lemma send_backward_log: "send_backward t ph s = Inr s' \<Longrightarrow> log s' = log s"
  by (auto simp: send_backward_def Let_def split: if_splits)

lemma backward_compute_chunk_iters:
  "backward_compute_chunk t ph zb s = Inr s' \<Longrightarrow> iter_lines (log s') = iter_lines (log s)"
proof (cases "forward_only s")
  case True
  assume "backward_compute_chunk t ph zb s = Inr s'"
  with True show ?thesis by (simp add: backward_compute_chunk_def)
next
  case False
  assume "backward_compute_chunk t ph zb s = Inr s'"
  from backward_compute_chunk_log [OF this False] show ?thesis by simp
qed

lemma forward_compute_chunk_iters:
  "forward_compute_chunk t ph s = Inr s' \<Longrightarrow> iter_lines (log s') = iter_lines (log s)"
  by (auto dest: forward_compute_chunk_log)

lemma forward_backward_compute_chunk_iters:
  assumes "forward_backward_compute_chunk t p0 p1 s = Inr s'"
  shows "iter_lines (log s') = iter_lines (log s)"
proof (cases "forward_only s")
  case True
  with assms show ?thesis
    by (auto simp: forward_backward_compute_chunk_def dest: forward_compute_chunk_iters)
next
  case False
  show ?thesis
  proof (cases "overlaped_forward_backward t")
    case True
    from fused_log [OF assms False True] show ?thesis by simp
  next
    case nf: False
    with assms False show ?thesis
      by (auto simp: forward_backward_compute_chunk_def split: sum.splits
               dest!: forward_compute_chunk_iters backward_compute_chunk_iters)
  qed
qed

lemma weight_chunk_iters: "weight_chunk s = Inr s' \<Longrightarrow> iter_lines (log s') = iter_lines (log s)"
  by (auto simp: weight_chunk_def wgs_pop_def commit_and_wait_comm_def split: if_splits)

lemma exec_iter_lines:
  "exec t a s = Inr s' \<Longrightarrow> iter_lines (log s') = iter_lines (log s) @ logs_of a"
  by (cases a)
     (auto simp: commit_and_wait_comm_def
           dest: recv_forward_log send_forward_log recv_backward_log send_backward_log
                 forward_compute_chunk_iters backward_compute_chunk_iters
                 forward_backward_compute_chunk_iters weight_chunk_iters)

lemma run_iter_lines:
  "run t as s = Inr s' \<Longrightarrow> iter_lines (log s') = iter_lines (log s) @ script_iters as"
proof (induction as arbitrary: s)
  case Nil
  then show ?case by simp
next
  case (Cons a as)
  then obtain s1 where a: "exec t a s = Inr s1" and r: "run t as s1 = Inr s'"
    by (auto split: sum.splits)
  from Cons.IH [OF r] exec_iter_lines [OF a] show ?case by simp
qed

lemma concat_map_single: "concat (map (\<lambda>i. [f i]) xs) = map f xs"
  by (induction xs) simp_all

lemma step_6_loop_iters: "script_iters (step_6_loop is n hr zb) = map (Pair 6) is"
  by (induction "is" arbitrary: zb) (simp_all add: Let_def script_iters_def backward_chunk_def)

lemma script_iters_chunks [simp]:
  "script_iters (forward_chunk ph recv send) = []"
  "script_iters (backward_chunk ph zb recv send) = []"
  "script_iters (forward_backward_chunk p0 p1 recv0) = []"
  by (simp_all add: forward_chunk_def backward_chunk_def forward_backward_chunk_def)

lemma script_iters_if:
  "script_iters (if c then as else bs) = (if c then script_iters as else script_iters bs)"
  by simp

lemma script_iters_steps:
  "script_iters (step_1 nhr hr) = map (Pair 1) [0..<nat ((nhr - hr - 1) * 2)]"
  "script_iters (step_2 middle hr) = map (Pair 2) [0..<nat (hr + 1)]"
  "script_iters (step_3 nhr hr) = map (Pair 3) [0..<nat (nhr - hr - 1)]"
  "script_iters (step_4 middle nr hr hnc) = map (Pair 4) [0..<nat (hnc - nr + hr + 1)]"
  "script_iters (step_5 nhr hr) = map (Pair 5) [0..<nat (nhr - hr - 1)]"
  "script_iters (step_6 hr) = map (Pair 6) [0..<nat (hr + 1)]"
  "script_iters (step_7 nhr hr) = map (Pair 7) [0..<nat (nhr - hr - 1)]"
  "script_iters (step_8 hr) = map (Pair 8) [0..<nat (hr + 1)]"
  by (simp_all add: step_1_def step_2_def step_3_def step_4_def step_5_def step_6_def step_7_def
        step_8_def script_iters_for_range script_iters_if concat_map_single step_6_loop_iters
        cong: if_cong)


lemma step_Inr_checks:
  assumes "step t a s = Inr (r, s')"
  shows "num_ranks t mod 2 = 0 \<and> 0 < arg_num_chunks a \<and> arg_num_chunks a mod 2 = 0
       \<and> num_ranks t * 2 \<le> arg_num_chunks a"
  using assms by (auto simp: step_def Let_def split: if_splits)

lemma reset_states_log [simp]: "log (reset_states s) = log s"
  by (simp add: reset_states_def wgs_clear_def)

lemma step_begin_log [simp]: "log (step_begin t a s) = log s"
  by (simp add: step_begin_def Let_def)

lemma step_end_log: "step_end t a s = Inr (r, s') \<Longrightarrow> log s' = log s"
  by (auto simp: step_end_def Let_def commit_and_wait_comm_def split: if_splits)

lemma schedule_iters:
  "script_iters (schedule t nc) =
     (let nr = num_ranks t; nhr = nr div 2; hr = min (rank t) (nr - 1 - rank t); hnc = nc div 2
      in map (Pair 1) [0..<nat ((nhr - hr - 1) * 2)] @ map (Pair 2) [0..<nat (hr + 1)]
         @ map (Pair 3) [0..<nat (nhr - hr - 1)] @ map (Pair 4) [0..<nat (hnc - nr + hr + 1)]
         @ map (Pair 5) [0..<nat (nhr - hr - 1)] @ map (Pair 6) [0..<nat (hr + 1)]
         @ map (Pair 7) [0..<nat (nhr - hr - 1)] @ map (Pair 8) [0..<nat (hr + 1)])"
  by (simp add: schedule_def Let_def script_iters_steps)

lemma step_iter_lines:
  assumes "step t a s = Inr (r, s')"
  shows "iter_lines (log s') = iter_lines (log s) @ script_iters (schedule t (arg_num_chunks a))"
proof -
  from step_Inr [OF assms] obtain s3 where
    r: "run t (schedule t (arg_num_chunks a))
               (step_begin t a
                  (s\<lparr>forward_only := \<not> grad_enabled a, return_outputs := arg_return_outputs a,
                     num_half_ranks := num_ranks t div 2,
                     half_rank := min (rank t) (num_ranks t - 1 - rank t)\<rparr>)) = Inr s3"
    and e: "step_end t a s3 = Inr (r, s')"
    by blast
  from run_iter_lines [OF r] step_end_log [OF e] show ?thesis by simp
qed

lemma count_Pair: "length (filter (\<lambda>l. fst l = k) (map (Pair k') xs)) = (if k' = k then length xs else 0)"
  by (induction xs) simp_all

section \<open>Middle ranks\<close>

text \<open>
  Claim C9. The topology the constructor returns has the size of the group as its number of
  ranks and the entry of the rank mapping at the rank of the process as its logical rank,
  and its rank is a middle rank exactly when the group has more than two ranks and the
  logical rank is \<open>gsize div 2 - 1\<close> or \<open>gsize div 2\<close>. In a group of two ranks neither
  rank is one, so every iteration of Step 2 computes forward 0 without sending, sends
  forward 1 at once and sends forward 0 last, and the first iteration of Step 4 is the
  fused forward-0/backward-1 chunk (without the receive), never the sequence of separate
  calls.
\<close>

theorem middle_rank_classification:
  assumes "init on_device modules gsize grank rank_mapping = Inr t"
  shows "num_ranks t = gsize
       \<and> py_get (case rank_mapping of None \<Rightarrow> map int [0..<nat gsize] | Some m \<Rightarrow> m) grank
           = Inr (rank t)
       \<and> is_middle_rank t
           = (gsize > 2 \<and> (rank t = gsize div 2 - 1 \<or> rank t = gsize div 2))
       \<and> is_middle_rank t
           = (num_ranks t > 2 \<and> (rank t = num_ranks t div 2 - 1 \<or> rank t = num_ranks t div 2))
       \<and> (gsize = 2 \<longrightarrow>
            \<not> is_middle_rank t
          \<and> step_2 (is_middle_rank t) hr =
              RecvForward 0 #
              for_range (hr + 1) (\<lambda>i.
                LogIter 2 i #
                forward_chunk 0 False False @ [RecvForward 0] @ forward_chunk 1 True True
                @ [SendForward 0])
          \<and> step_4 (is_middle_rank t) nr hr hnc =
              for_range (hnc - nr + hr + 1) (\<lambda>i.
                LogIter 4 i #
                forward_backward_chunk 0 1 (i \<noteq> 0) @ forward_backward_chunk 1 0 True))"
proof -
  have n: "num_ranks t = gsize"
    and r: "py_get (case rank_mapping of None \<Rightarrow> map int [0..<nat gsize] | Some m \<Rightarrow> m) grank
           = Inr (rank t)"
    using assms by (auto simp: init_def Let_def split: if_splits sum.splits)
  have mid: "is_middle_rank t
           = (gsize > 2 \<and> (rank t = gsize div 2 - 1 \<or> rank t = gsize div 2))"
    using assms by (auto simp: init_def Let_def split: if_splits sum.splits)
  have body: "\<And>i::nat. (if i = 0 then forward_backward_chunk 0 1 False
                         else forward_backward_chunk 0 1 True)
                    = forward_backward_chunk 0 1 (i \<noteq> 0)"
    by simp
  have two: "gsize = 2 \<longrightarrow>
            \<not> is_middle_rank t
          \<and> step_2 (is_middle_rank t) hr =
              RecvForward 0 #
              for_range (hr + 1) (\<lambda>i.
                LogIter 2 i #
                forward_chunk 0 False False @ [RecvForward 0] @ forward_chunk 1 True True
                @ [SendForward 0])
          \<and> step_4 (is_middle_rank t) nr hr hnc =
              for_range (hnc - nr + hr + 1) (\<lambda>i.
                LogIter 4 i #
                forward_backward_chunk 0 1 (i \<noteq> 0) @ forward_backward_chunk 1 0 True)"
    using mid by (simp add: step_2_def step_4_def body)
  from n r mid two show ?thesis
    by (simp only: n simp_thms)
qed

theorem middle_rank_classification_witness:
  "init True (shard_cls, shard_cls) 2 1 None = Inr (rank_of shard_cls 1 2)
   \<and> \<not> is_middle_rank (rank_of shard_cls 1 2)
   \<and> step_4 (is_middle_rank (rank_of shard_cls 1 2)) 2 0 2 =
       for_range 1 (\<lambda>i. LogIter 4 i #
          forward_backward_chunk 0 1 (i \<noteq> 0) @ forward_backward_chunk 1 0 True)
   \<and> init True (shard_cls, shard_cls) 4 2 (Some [3, 2, 1, 0]) =
       Inr ((rank_of shard_cls 1 4)\<lparr>first_rank := Some 3, prev_rank := Some 3,
                                     next_rank := Some 1, last_rank := Some 0\<rparr>)
   \<and> is_middle_rank ((rank_of shard_cls 1 4)\<lparr>first_rank := Some 3, prev_rank := Some 3,
                                     next_rank := Some 1, last_rank := Some 0\<rparr>)
   \<and> init True (shard_cls, shard_cls) 4 0 None = Inr (rank_of shard_cls 0 4)
   \<and> \<not> is_middle_rank (rank_of shard_cls 0 4)"
proof -
  let ?m = "(rank_of shard_cls 1 4)\<lparr>first_rank := Some 3, prev_rank := Some 3,
                                     next_rank := Some 1, last_rank := Some 0\<rparr>"
  have h2: "init True (shard_cls, shard_cls) 2 1 None = Inr (rank_of shard_cls 1 2)"
    by code_simp
  have h4: "init True (shard_cls, shard_cls) 4 2 (Some [3, 2, 1, 0]) = Inr ?m"
    by code_simp
  have h0: "init True (shard_cls, shard_cls) 4 0 None = Inr (rank_of shard_cls 0 4)"
    by code_simp
  have m: "is_middle_rank (rank_of shard_cls 1 2) = False" "is_middle_rank ?m = True"
    "is_middle_rank (rank_of shard_cls 0 4) = False"
    by (simp_all add: rank_of_def)
  from middle_rank_classification [OF h2, of 0 2 2] middle_rank_classification [OF h4]
    middle_rank_classification [OF h0] h2 h4 h0
  show ?thesis by (simp add: m)
qed

section \<open>Failing fast\<close>

text \<open>
  Claim C6, as stated, fails: when the rank count or the chunk count is rejected, \<^verbatim>\<open>step\<close>
  has already overwritten \<^verbatim>\<open>forward_only\<close> and \<^verbatim>\<open>return_outputs\<close>. On rank 0 of three
  ranks, a call without gradient tracking on an object whose last step was a training step
  raises the assertion error and leaves \<^verbatim>\<open>forward_only\<close> set.
\<close>

theorem step_mutates_before_failing_counterexample:
  "init True (shard_cls, shard_cls) 3 0 None = Inr (rank_of shard_cls 0 3)
   \<and> step (rank_of shard_cls 0 3) (example_args False 8) idle = Inl (AssertionError, idle\<lparr>forward_only := True\<rparr>)
   \<and> forward_only (idle\<lparr>forward_only := True\<rparr>) \<noteq> forward_only idle"
proof -
  have "init True (shard_cls, shard_cls) 3 0 None = Inr (rank_of shard_cls 0 3)"
    by code_simp
  moreover have "step (rank_of shard_cls 0 3) (example_args False 8) idle = Inl (AssertionError, idle\<lparr>forward_only := True\<rparr>)"
    by (simp add: step_def rank_of_def example_args_def idle_def)
  ultimately show ?thesis by (simp add: idle_def)
qed

text \<open>
  Claim C6, amended. Whenever a precondition is violated (shapes or dtype not set, an odd
  number of ranks, a chunk count that is not positive, even and at least twice the number of
  ranks, or no criterion on the first or last rank while gradients are tracked), \<^verbatim>\<open>step\<close>
  raises \<^verbatim>\<open>AssertionError\<close> before it resets the state, scatters, schedules or communicates:
  queues, cursors, pending descriptors, the weight-gradient store and the log are untouched.
  Only \<^verbatim>\<open>forward_only\<close> and \<^verbatim>\<open>return_outputs\<close> have been written when the check that fails
  comes after the shape check, and \<^verbatim>\<open>num_half_ranks\<close> and \<^verbatim>\<open>half_rank\<close> as well when it is the
  criterion check.
\<close>

theorem step_fails_fast:
  assumes "\<not> (shapes_set a \<and> dtype_set a)
         \<or> num_ranks t mod 2 \<noteq> 0
         \<or> \<not> (0 < arg_num_chunks a \<and> arg_num_chunks a mod 2 = 0 \<and> num_ranks t * 2 \<le> arg_num_chunks a)
         \<or> (grad_enabled a \<and> (is_first_rank t \<or> is_last_rank t) \<and> \<not> arg_criterion a)"
  shows "step t a s = Inl (AssertionError,
           if \<not> (shapes_set a \<and> dtype_set a) then s
           else if num_ranks t mod 2 \<noteq> 0
                 \<or> \<not> (0 < arg_num_chunks a \<and> arg_num_chunks a mod 2 = 0
                        \<and> num_ranks t * 2 \<le> arg_num_chunks a)
           then s\<lparr>forward_only := \<not> grad_enabled a, return_outputs := arg_return_outputs a\<rparr>
           else s\<lparr>forward_only := \<not> grad_enabled a, return_outputs := arg_return_outputs a,
                  num_half_ranks := num_ranks t div 2,
                  half_rank := min (rank t) (num_ranks t - 1 - rank t)\<rparr>)"
  using assms by (auto simp: step_def Let_def)

theorem step_fails_fast_witness:
  "num_ranks (rank_of shard_cls 0 3) mod 2 \<noteq> 0
   \<and> step (rank_of shard_cls 0 3) (example_args True 8) idle = Inl (AssertionError, idle)
   \<and> step (rank_of shard_cls 0 3) (example_args True 8) (idle\<lparr>comm_ops := [Isend (Some 1)]\<rparr>)
       = Inl (AssertionError, idle\<lparr>comm_ops := [Isend (Some 1)]\<rparr>)"
proof -
  have odd3: "num_ranks (rank_of shard_cls 0 3) mod 2 \<noteq> 0" by (simp add: rank_of_def)
  then have h: "\<not> (shapes_set (example_args True 8) \<and> dtype_set (example_args True 8))
         \<or> num_ranks (rank_of shard_cls 0 3) mod 2 \<noteq> 0
         \<or> \<not> (0 < arg_num_chunks (example_args True 8) \<and> arg_num_chunks (example_args True 8) mod 2 = 0
                \<and> num_ranks (rank_of shard_cls 0 3) * 2 \<le> arg_num_chunks (example_args True 8))
         \<or> (grad_enabled (example_args True 8) \<and> (is_first_rank (rank_of shard_cls 0 3) \<or> is_last_rank (rank_of shard_cls 0 3))
              \<and> \<not> arg_criterion (example_args True 8))"
    by simp
  show ?thesis
    using odd3 step_fails_fast [OF h, of idle] step_fails_fast [OF h, of "idle\<lparr>comm_ops := [Isend (Some 1)]\<rparr>"]
    by (simp add: example_args_def idle_def)
qed

section \<open>The fused compute path\<close>

text \<open>
  Claim C7, as stated, fails: two shard modules of different classes that both expose the
  fused operation do not switch the scheduler to the fused path, since the constructor also
  compares the two classes.
\<close>

theorem fused_path_needs_same_type_counterexample:
  "cls_has_overlaped fused_cls \<and> cls_has_overlaped other_fused_cls
   \<and> init True (fused_cls, other_fused_cls) 2 0 None =
       Inr \<lparr>overlaped_forward_backward = False, num_ranks = 2, rank = 0,
            first_rank = Some 0, prev_rank = None, next_rank = Some 1, last_rank = Some 1,
            is_first_rank = True, is_last_rank = False, is_in_second_half = False,
            is_middle_rank = False\<rparr>"
  by code_simp

text \<open>
  Claim C7, amended. The scheduler's flag is set exactly when the two shard modules have the
  same class and that class exposes the fused operation. \<^verbatim>\<open>_forward_backward_compute_chunk\<close>
  performs only the forward compute in forward-only mode, performs the plain forward compute
  and then the plain backward compute when gradients are tracked and the flag is not set,
  and a call that returns has made the one fused kernel call exactly when gradients are
  tracked and the flag is set.
\<close>

theorem fused_path_condition:
  assumes "init on_device (m0, m1) gsize grank rank_mapping = Inr t"
  shows "overlaped_forward_backward t = (m0 = m1 \<and> cls_has_overlaped m0)
     \<and> (forward_only s \<longrightarrow>
          forward_backward_compute_chunk t p0 p1 s = forward_compute_chunk t p0 s)
     \<and> (\<not> forward_only s \<and> \<not> (m0 = m1 \<and> cls_has_overlaped m0) \<longrightarrow>
          forward_backward_compute_chunk t p0 p1 s =
            (case forward_compute_chunk t p0 s of
               Inl e \<Rightarrow> Inl e
             | Inr s1 \<Rightarrow> backward_compute_chunk t p1 False s1))
     \<and> (forward_backward_compute_chunk t p0 p1 s = Inr s' \<longrightarrow>
          ((\<exists>c0 c1. log s' = log s @ [OverlapedForwardBackward (phys t p0) c0 (phys t p1) c1])
             \<longleftrightarrow> (\<not> forward_only s \<and> m0 = m1 \<and> cls_has_overlaped m0)))"
proof -
  have flag: "overlaped_forward_backward t = (m0 = m1 \<and> cls_has_overlaped m0)"
    using assms by (auto simp: init_def Let_def split: if_splits sum.splits)
  have fo: "forward_only s \<Longrightarrow>
          forward_backward_compute_chunk t p0 p1 s = forward_compute_chunk t p0 s"
    by (simp add: forward_backward_compute_chunk_def)
  have seq: "\<not> forward_only s \<Longrightarrow> \<not> overlaped_forward_backward t \<Longrightarrow>
          forward_backward_compute_chunk t p0 p1 s =
            (case forward_compute_chunk t p0 s of
               Inl e \<Rightarrow> Inl e
             | Inr s1 \<Rightarrow> backward_compute_chunk t p1 False s1)"
    by (simp add: forward_backward_compute_chunk_def)
  have path: "(\<exists>c0 c1. log s' = log s @ [OverlapedForwardBackward (phys t p0) c0 (phys t p1) c1])
             \<longleftrightarrow> (\<not> forward_only s \<and> overlaped_forward_backward t)"
    if ok: "forward_backward_compute_chunk t p0 p1 s = Inr s'"
  proof (cases "forward_only s")
    case True
    with ok fo have "forward_compute_chunk t p0 s = Inr s'" by simp
    from forward_compute_chunk_log [OF this] True show ?thesis by simp
  next
    case False
    show ?thesis
    proof (cases "overlaped_forward_backward t")
      case True
      from fused_log [OF ok False True] False True show ?thesis by blast
    next
      case nf: False
      from ok seq [OF False nf] obtain s1 where
        f: "forward_compute_chunk t p0 s = Inr s1" and b: "backward_compute_chunk t p1 False s1 = Inr s'"
        by (auto split: sum.splits)
      from forward_compute_chunk_log [OF f] have l1: "log s1 = log s @ [ModuleForward (phys t p0) (pick (phys t p0) (current_f_chunk_id s))]"
        and "\<not> forward_only s1" using False by simp_all
      from backward_compute_chunk_log [OF b this(2)] l1 nf show ?thesis by simp
    qed
  qed
  show ?thesis
    using flag fo seq path by simp
qed

theorem fused_path_condition_witness:
  "init True (fused_cls, fused_cls) 2 0 None = Inr (rank_of fused_cls 0 2)
   \<and> map_sum fst log
         (forward_backward_compute_chunk (rank_of fused_cls 0 2) 0 1
            (idle\<lparr>input_chunks := ([Some Tensors], [Some Tensors]), loss_chunks := [Tensors]\<rparr>))
       = Inr [OverlapedForwardBackward 0 0 1 0]
   \<and> forward_backward_compute_chunk (rank_of fused_cls 0 2) 0 1
         (idle\<lparr>forward_only := True, input_chunks := ([Some Tensors], [])\<rparr>)
       = forward_compute_chunk (rank_of fused_cls 0 2) 0
         (idle\<lparr>forward_only := True, input_chunks := ([Some Tensors], [])\<rparr>)"
proof -
  let ?t = "rank_of fused_cls 0 2"
  let ?s = "idle\<lparr>input_chunks := ([Some Tensors], [Some Tensors]), loss_chunks := [Tensors]\<rparr>"
  let ?f = "idle\<lparr>forward_only := True, input_chunks := ([Some Tensors], [])\<rparr>"
  have h: "init True (fused_cls, fused_cls) 2 0 None = Inr ?t"
    by code_simp
  have "\<not> isl (forward_backward_compute_chunk ?t 0 1 ?s)"
    by (simp add: forward_backward_compute_chunk_def rank_of_def fused_cls_def idle_def phys_def
          is_last_stage_def pick_def put_def backward_post_def wgs_put_def Let_def)
  then obtain s' where r: "forward_backward_compute_chunk ?t 0 1 ?s = Inr s'"
    by (cases "forward_backward_compute_chunk ?t 0 1 ?s") auto
  have tr: "\<not> forward_only ?s" and fo: "forward_only ?f"
    by (simp_all add: idle_def)
  from fused_path_condition [OF h, of ?s 0 1 s'] r tr
  have "\<exists>c0 c1. log s' = log ?s @ [OverlapedForwardBackward (phys ?t 0) c0 (phys ?t 1) c1]"
    by (simp add: fused_cls_def)
  moreover have "log s' = log ?s @ [OverlapedForwardBackward (phys ?t 0) (pick (phys ?t 0) (current_f_chunk_id ?s))
                         (phys ?t 1) (pick (phys ?t 1) (current_b_chunk_id ?s))]"
    using r tr by (intro fused_log) (simp_all add: rank_of_def fused_cls_def)
  ultimately have "log s' = [OverlapedForwardBackward 0 0 1 0]"
    by (simp add: idle_def phys_def rank_of_def pick_def)
  with r h fused_path_condition [OF h, of ?f 0 1] fo show ?thesis
    by simp
qed

section \<open>The zero-bubble switch of Step 6\<close>

lemma step_6_loop_Cons:
  "step_6_loop (i # is) n hr zb =
     LogIter 6 i #
     backward_chunk 1 (zb \<or> (int i = n div 2 \<and> hr mod 2 = 1)) True True
     @ backward_chunk 0 (zb \<or> int i = n div 2) True True
     @ step_6_loop is n hr (zb \<or> int i = n div 2)"
proof -
  have "hr mod 2 = 0 \<or> hr mod 2 = 1" by presburger
  then show ?thesis by (auto simp: Let_def)
qed

lemma step_6_loop_closed:
  assumes "n div 2 = mid" and "zb = (mid < int k)"
  shows "step_6_loop [k..<m] n hr zb =
         concat (map (\<lambda>i. LogIter 6 i #
           backward_chunk 1 (mid < int i \<or> (int i = mid \<and> hr mod 2 = 1)) True True
           @ backward_chunk 0 (mid \<le> int i) True True) [k..<m])"
  using assms(2)
proof (induction "m - k" arbitrary: k zb)
  case 0
  then show ?case by simp
next
  case (Suc d)
  then have km: "k < m" and d: "d = m - Suc k" by simp_all
  have nxt: "(zb \<or> int k = n div 2) = (mid < int (Suc k))"
    using assms(1) Suc.prems by auto
  have z2: "(zb \<or> int k = n div 2) = (mid \<le> int k)"
    using assms(1) Suc.prems by auto
  have z1: "(zb \<or> (int k = n div 2 \<and> hr mod 2 = 1)) = (mid < int k \<or> (int k = mid \<and> hr mod 2 = 1))"
    using assms(1) Suc.prems by auto
  have ih: "step_6_loop [Suc k..<m] n hr (zb \<or> int k = n div 2) =
         concat (map (\<lambda>i. LogIter 6 i #
           backward_chunk 1 (mid < int i \<or> (int i = mid \<and> hr mod 2 = 1)) True True
           @ backward_chunk 0 (mid \<le> int i) True True) [Suc k..<m])"
    by (rule Suc.hyps(1) [OF d nxt])
  note ih' = ih [unfolded z2]
  have "[k..<m] = k # [Suc k..<m]"
    using km by (rule upt_conv_Cons)
  then show ?case
    by (simp only: step_6_loop_Cons z1 z2 ih' list.map concat.simps append_Cons append_assoc)
qed

text \<open>
  Claim C8. Step 6 runs \<open>half_rank + 1\<close> iterations, each a backward of direction 1 followed
  by a backward of direction 0. Zero-bubble deferral is off before the midpoint iteration
  \<open>(half_rank + 1) div 2\<close> and on in every call after it; in the midpoint iteration it is on
  for the backward of direction 0, and for the backward of direction 1 exactly when
  \<open>half_rank\<close> is odd. The midpoint iteration is one of the iterations of the phase.
\<close>

theorem step_6_zero_bubble_switch:
  "step_6 hr =
     for_range (hr + 1) (\<lambda>i.
       LogIter 6 i #
       backward_chunk 1 ((hr + 1) div 2 < int i \<or> (int i = (hr + 1) div 2 \<and> hr mod 2 = 1)) True True
       @ backward_chunk 0 ((hr + 1) div 2 \<le> int i) True True)
   \<and> (0 \<le> hr \<longrightarrow> 0 \<le> (hr + 1) div 2 \<and> (hr + 1) div 2 < hr + 1)"
proof (cases "0 \<le> hr")
  case True
  then have "False = ((hr + 1) div 2 < int 0)" by simp
  then have "step_6_loop [0..<nat (hr + 1)] (hr + 1) hr False =
         concat (map (\<lambda>i. LogIter 6 i #
           backward_chunk 1 ((hr + 1) div 2 < int i \<or> (int i = (hr + 1) div 2 \<and> hr mod 2 = 1)) True True
           @ backward_chunk 0 ((hr + 1) div 2 \<le> int i) True True) [0..<nat (hr + 1)])"
    by (rule step_6_loop_closed [OF refl])
  moreover have "0 \<le> (hr + 1) div 2 \<and> (hr + 1) div 2 < hr + 1"
    using True by auto
  ultimately show ?thesis
    unfolding step_6_def for_range_def by blast
next
  case False
  then have "nat (hr + 1) = 0" by simp
  then show ?thesis
    using False by (simp add: step_6_def for_range_def)
qed

theorem step_6_zero_bubble_switch_witness:
  "(0::int) \<le> 1 \<and> ((1::int) + 1) div 2 < 1 + 1
   \<and> [zb. BackwardComputeChunk p zb \<leftarrow> step_6 1] = [False, False, True, True]
   \<and> [zb. BackwardComputeChunk p zb \<leftarrow> step_6 2] = [False, False, False, True, True, True]"
  using step_6_zero_bubble_switch [of 1] step_6_zero_bubble_switch [of 2]
  by (simp add: for_range_def backward_chunk_def upt_rec)

section \<open>The weight-gradient queue at the boundaries of a step\<close>

text \<open>
  Claim C5. The queue of the weight-gradient store is empty when scheduling begins, because
  \<^verbatim>\<open>step\<close> resets the state (which clears the store) before the first loop; it is empty
  whenever \<^verbatim>\<open>step\<close> returns, and was so already when the eighth loop ended; and a queue
  that is not empty after the eighth loop makes the rest of \<^verbatim>\<open>step\<close> raise
  \<^verbatim>\<open>AssertionError\<close>, with the state as the loops left it.
\<close>

theorem weight_queue_empty_at_step_boundaries:
  "wgs_funcs_queue (step_begin t a s) = []
   \<and> (step t a s = Inr (r, s') \<longrightarrow>
        wgs_funcs_queue s' = []
      \<and> (\<exists>s3. run t (schedule t (arg_num_chunks a))
               (step_begin t a
                  (s\<lparr>forward_only := \<not> grad_enabled a, return_outputs := arg_return_outputs a,
                     num_half_ranks := num_ranks t div 2,
                     half_rank := min (rank t) (num_ranks t - 1 - rank t)\<rparr>)) = Inr s3
              \<and> wgs_funcs_queue s3 = []))
   \<and> (wgs_funcs_queue s3 \<noteq> [] \<longrightarrow> step_end t a s3 = Inl (AssertionError, s3))"
proof -
  have "wgs_funcs_queue s' = []
      \<and> (\<exists>s3. run t (schedule t (arg_num_chunks a))
               (step_begin t a
                  (s\<lparr>forward_only := \<not> grad_enabled a, return_outputs := arg_return_outputs a,
                     num_half_ranks := num_ranks t div 2,
                     half_rank := min (rank t) (num_ranks t - 1 - rank t)\<rparr>)) = Inr s3
              \<and> wgs_funcs_queue s3 = [])"
    if ok: "step t a s = Inr (r, s')"
  proof -
    from step_Inr [OF ok] obtain s3 where
      r: "run t (schedule t (arg_num_chunks a))
               (step_begin t a
                  (s\<lparr>forward_only := \<not> grad_enabled a, return_outputs := arg_return_outputs a,
                     num_half_ranks := num_ranks t div 2,
                     half_rank := min (rank t) (num_ranks t - 1 - rank t)\<rparr>)) = Inr s3"
      and e: "step_end t a s3 = Inr (r, s')"
      by blast
    from step_end_Inr [OF e] have "wgs_funcs_queue s3 = []" and "wgs_funcs_queue s' = []"
      by (simp_all add: reset_states_def wgs_clear_def)
    with r show ?thesis by blast
  qed
  moreover have "wgs_funcs_queue s3 \<noteq> [] \<Longrightarrow> step_end t a s3 = Inl (AssertionError, s3)"
    by (simp add: step_end_def)
  ultimately show ?thesis
    using step_begin_store by blast
qed

theorem weight_queue_empty_at_step_boundaries_witness:
  "map_sum fst (\<lambda>(r, s'). wgs_funcs_queue s')
     (step (rank_of shard_cls 1 4) (example_args True 8) (idle\<lparr>wgs_funcs_queue := [[(0, 0)]]\<rparr>)) = Inr []
   \<and> wgs_funcs_queue (idle\<lparr>wgs_funcs_queue := [[(0, 0)]]\<rparr>) \<noteq> []
   \<and> step_end (rank_of shard_cls 1 4) (example_args True 8) (idle\<lparr>wgs_funcs_queue := [[(0, 0)]]\<rparr>)
       = Inl (AssertionError, idle\<lparr>wgs_funcs_queue := [[(0, 0)]]\<rparr>)"
proof -
  let ?t = "rank_of shard_cls 1 4" and ?a = "example_args True 8"
  let ?s = "idle\<lparr>wgs_funcs_queue := [[(0, 0)]]\<rparr>"
  have "\<not> isl (step ?t ?a ?s)"
    by code_simp
  then obtain r s' where ok: "step ?t ?a ?s = Inr (r, s')"
    by (cases "step ?t ?a ?s") auto
  have ne: "wgs_funcs_queue ?s \<noteq> []"
    by (simp add: idle_def)
  from weight_queue_empty_at_step_boundaries [of ?t ?a ?s r s' ?s] ok ne
  show ?thesis by simp
qed

section \<open>No descriptor for a missing neighbour\<close>

text \<open>
  Claim C10. With a valid rank mapping, \<^verbatim>\<open>prev_rank\<close> of logical rank 0 and \<^verbatim>\<open>next_rank\<close> of
  the last logical rank are \<^verbatim>\<open>None\<close>. \<^verbatim>\<open>_recv_forward\<close> and \<^verbatim>\<open>_send_backward\<close> return at
  once, leaving the state as it is, when the physical phase is the first stage of the rank,
  and \<^verbatim>\<open>_send_forward\<close> and \<^verbatim>\<open>_recv_backward\<close> when it is the last stage. Whatever the
  phase and the state, and whether the call returns or raises, each of the four methods
  keeps the pending descriptors and appends only descriptors whose peer is a rank.
\<close>

theorem no_descriptor_to_none_peer:
  assumes "init on_device modules gsize grank rank_mapping = Inr t"
      and "valid_rank_mapping gsize rank_mapping"
  shows "(rank t = 0 \<longrightarrow> prev_rank t = None)
       \<and> (rank t = num_ranks t - 1 \<longrightarrow> next_rank t = None)
       \<and> (is_first_stage t (phys t phase) \<longrightarrow>
            recv_forward t phase s = Inr s \<and> send_backward t phase s = Inr s)
       \<and> (is_last_stage t (phys t phase) \<longrightarrow>
            send_forward t phase s = Inr s \<and> recv_backward t phase s = Inr s)
       \<and> posts_to_peers s (recv_forward t phase s)
       \<and> posts_to_peers s (send_forward t phase s)
       \<and> posts_to_peers s (recv_backward t phase s)
       \<and> posts_to_peers s (send_backward t phase s)"
proof -
  from init_peers [OF assms] have
    n: "num_ranks t = gsize"
    and f: "is_first_rank t = (rank t = 0)" and l: "is_last_rank t = (rank t = gsize - 1)"
    and p: "prev_rank t = None \<longleftrightarrow> rank t = 0" and x: "next_rank t = None \<longleftrightarrow> rank t = gsize - 1"
    by simp_all
  have pf: "prev_rank t = None \<longleftrightarrow> is_first_rank t" and xl: "next_rank t = None \<longleftrightarrow> is_last_rank t"
    using f l p x by simp_all
  have early: "(is_first_stage t (phys t phase) \<longrightarrow>
            recv_forward t phase s = Inr s \<and> send_backward t phase s = Inr s)
       \<and> (is_last_stage t (phys t phase) \<longrightarrow>
            send_forward t phase s = Inr s \<and> recv_backward t phase s = Inr s)"
    by (simp add: recv_forward_def send_backward_def send_forward_def recv_backward_def)
  show ?thesis
    using n p x early recv_forward_posts [OF pf xl] send_forward_posts [OF pf xl]
      recv_backward_posts [OF pf xl] send_backward_posts [OF pf xl]
    by simp
qed

theorem no_descriptor_to_none_peer_witness:
  "init True (shard_cls, shard_cls) 4 3 (Some [3, 2, 1, 0]) = Inr ((rank_of shard_cls 0 4)\<lparr>
       first_rank := Some 3, next_rank := Some 2, last_rank := Some 0\<rparr>)
   \<and> valid_rank_mapping 4 (Some [3, 2, 1, 0])
   \<and> prev_rank ((rank_of shard_cls 0 4)\<lparr>first_rank := Some 3, next_rank := Some 2, last_rank := Some 0\<rparr>) = None
   \<and> recv_forward ((rank_of shard_cls 0 4)\<lparr>first_rank := Some 3, next_rank := Some 2, last_rank := Some 0\<rparr>) 0 idle
       = Inr idle
   \<and> map_sum fst comm_ops
        (recv_forward ((rank_of shard_cls 0 4)\<lparr>first_rank := Some 3, next_rank := Some 2, last_rank := Some 0\<rparr>) 1 idle)
       = Inr [Irecv (Some 2)]"
proof -
  let ?t = "(rank_of shard_cls 0 4)\<lparr>first_rank := Some 3, next_rank := Some 2, last_rank := Some 0\<rparr>"
  have h: "init True (shard_cls, shard_cls) 4 3 (Some [3, 2, 1, 0]) = Inr ?t"
    by code_simp
  have v: "valid_rank_mapping 4 (Some [3, 2, 1, 0])"
    by code_simp
  have r0: "rank ?t = 0" and fs: "is_first_stage ?t (phys ?t 0)"
    by (simp_all add: rank_of_def is_first_stage_def phys_def)
  have "map_sum fst comm_ops (recv_forward ?t 1 idle) = Inr [Irecv (Some 2)]"
    by (simp add: recv_forward_def rank_of_def is_first_stage_def phys_def idle_def Let_def)
  with h v r0 fs no_descriptor_to_none_peer [OF h v, of 0 idle] show ?thesis
    by simp
qed

section \<open>The eight phases\<close>

text \<open>
  Claim C2. A call of \<^verbatim>\<open>step\<close> that returns (so the number of ranks is even and the number
  of chunks is even and at least twice the number of ranks) on a rank \<open>0 \<le> rank < num_ranks\<close>
  has logged the iterations of exactly eight phases, in order and each counted from zero,
  and the numbers of iterations are
  \<open>(nhr - hr - 1) * 2\<close>, \<open>hr + 1\<close>, \<open>nhr - hr - 1\<close>, \<open>hnc - nr + hr + 1\<close>, \<open>nhr - hr - 1\<close>,
  \<open>hr + 1\<close>, \<open>nhr - hr - 1\<close>, \<open>hr + 1\<close>, where \<open>nhr = num_ranks div 2\<close>,
  \<open>hr = min rank (num_ranks - 1 - rank)\<close> and \<open>hnc = num_chunks div 2\<close>.
\<close>

theorem eight_phase_iteration_counts:
  assumes ok: "step t a s = Inr (r, s')" and r0: "0 \<le> rank t" and rn: "rank t < num_ranks t"
  shows "(let nr = num_ranks t; nhr = nr div 2; hr = min (rank t) (nr - 1 - rank t);
              hnc = arg_num_chunks a div 2
          in iter_lines (log s') =
               iter_lines (log s)
               @ map (Pair 1) [0..<nat ((nhr - hr - 1) * 2)] @ map (Pair 2) [0..<nat (hr + 1)]
               @ map (Pair 3) [0..<nat (nhr - hr - 1)] @ map (Pair 4) [0..<nat (hnc - nr + hr + 1)]
               @ map (Pair 5) [0..<nat (nhr - hr - 1)] @ map (Pair 6) [0..<nat (hr + 1)]
               @ map (Pair 7) [0..<nat (nhr - hr - 1)] @ map (Pair 8) [0..<nat (hr + 1)]
           \<and> map (\<lambda>k. iteration_count (log s') k - iteration_count (log s) k) [1, 2, 3, 4, 5, 6, 7, 8]
               = [(nhr - hr - 1) * 2, hr + 1, nhr - hr - 1, hnc - nr + hr + 1,
                  nhr - hr - 1, hr + 1, nhr - hr - 1, hr + 1])"
proof -
  define nr where "nr = num_ranks t"
  define nhr where "nhr = nr div 2"
  define hr where "hr = min (rank t) (nr - 1 - rank t)"
  define hnc where "hnc = arg_num_chunks a div 2"
  from step_Inr_checks [OF ok] have ev: "nr mod 2 = 0" and nc: "nr * 2 \<le> arg_num_chunks a"
    by (simp_all add: nr_def)
  have h0: "0 \<le> hr" and h1: "0 \<le> nhr - hr - 1" and h4: "0 \<le> hnc - nr + hr + 1"
    using r0 rn ev nc by (auto simp: hr_def nhr_def hnc_def nr_def min_def)
  have lines: "iter_lines (log s') =
               iter_lines (log s)
               @ map (Pair 1) [0..<nat ((nhr - hr - 1) * 2)] @ map (Pair 2) [0..<nat (hr + 1)]
               @ map (Pair 3) [0..<nat (nhr - hr - 1)] @ map (Pair 4) [0..<nat (hnc - nr + hr + 1)]
               @ map (Pair 5) [0..<nat (nhr - hr - 1)] @ map (Pair 6) [0..<nat (hr + 1)]
               @ map (Pair 7) [0..<nat (nhr - hr - 1)] @ map (Pair 8) [0..<nat (hr + 1)]"
    using step_iter_lines [OF ok]
    by (simp add: schedule_iters Let_def nr_def nhr_def hr_def hnc_def)
  have "map (\<lambda>k. iteration_count (log s') k - iteration_count (log s) k) [1, 2, 3, 4, 5, 6, 7, 8]
               = [(nhr - hr - 1) * 2, hr + 1, nhr - hr - 1, hnc - nr + hr + 1,
                  nhr - hr - 1, hr + 1, nhr - hr - 1, hr + 1]"
    using h0 h1 h4 by (simp add: iteration_count_def lines count_Pair)
  with lines show ?thesis
    by (simp add: Let_def nr_def nhr_def hr_def hnc_def)
qed

theorem eight_phase_iteration_counts_witness:
  "map_sum fst (\<lambda>(r, s'). map (iteration_count (log s')) [1, 2, 3, 4, 5, 6, 7, 8])
     (step (rank_of shard_cls 2 6) (example_args True 14) idle) = Inr [0, 3, 0, 4, 0, 3, 0, 3]
   \<and> (0::int) \<le> rank (rank_of shard_cls 2 6) \<and> rank (rank_of shard_cls 2 6) < num_ranks (rank_of shard_cls 2 6)"
proof -
  let ?t = "rank_of shard_cls 2 6" and ?a = "example_args True 14"
  have "\<not> isl (step ?t ?a idle)"
    by code_simp
  then obtain r s' where ok: "step ?t ?a idle = Inr (r, s')"
    by (cases "step ?t ?a idle") auto
  have r0: "0 \<le> rank ?t" and rn: "rank ?t < num_ranks ?t"
    by (simp_all add: rank_of_def)
  have z: "iteration_count (log idle) k = 0" for k
    by (simp add: iteration_count_def idle_def)
  from eight_phase_iteration_counts [OF ok r0 rn] ok r0 rn show ?thesis
    by (simp add: Let_def z rank_of_def example_args_def)
qed

section \<open>Four ranks, eight chunks\<close>

text \<open>
  Claim C1, as stated, fails: on logical rank 1 of four ranks (whose half rank is 1) a step
  over eight chunks does not run the iteration counts 0, 2, 0, 1, 1, 2, 0, 2.
\<close>

theorem half_rank_1_iteration_counts_counterexample:
  "init True (shard_cls, shard_cls) 4 1 None = Inr (rank_of shard_cls 1 4)
   \<and> min (rank (rank_of shard_cls 1 4)) (4 - 1 - rank (rank_of shard_cls 1 4)) = 1
   \<and> map_sum fst (\<lambda>(r, s'). map (iteration_count (log s')) [1, 2, 3, 4, 5, 6, 7, 8])
        (step (rank_of shard_cls 1 4) (example_args True 8) idle)
       \<noteq> Inr [0, 2, 0, 1, 1, 2, 0, 2]"
  by code_simp

text \<open>
  Claim C1, amended. With four ranks and eight chunks, a step (with or without gradient
  tracking) runs the iteration counts 2, 1, 1, 1, 1, 1, 1, 1 on the logical ranks 0 and 3,
  whose half rank is 0, and 0, 2, 0, 2, 0, 2, 0, 2 on the logical ranks 1 and 2, whose half
  rank is 1: there Step 4 runs \<open>4 - 4 + 1 + 1 = 2\<close> iterations and Step 5 runs
  \<open>2 - 1 - 1 = 0\<close>.
\<close>

theorem four_ranks_eight_chunks_iteration_counts:
  "map (\<lambda>rk. init True (shard_cls, shard_cls) 4 rk None) [0, 1, 2, 3]
     = map (\<lambda>rk. Inr (rank_of shard_cls rk 4)) [0, 1, 2, 3]
   \<and> map (\<lambda>rk. min (rank (rank_of shard_cls rk 4)) (4 - 1 - rank (rank_of shard_cls rk 4))) [0, 1, 2, 3]
     = [0, 1, 1, 0]
   \<and> map (\<lambda>rk. map_sum fst (\<lambda>(r, s'). map (iteration_count (log s')) [1, 2, 3, 4, 5, 6, 7, 8])
                 (step (rank_of shard_cls rk 4) (example_args True 8) idle)) [0, 1, 2, 3]
     = [Inr [2, 1, 1, 1, 1, 1, 1, 1], Inr [0, 2, 0, 2, 0, 2, 0, 2],
        Inr [0, 2, 0, 2, 0, 2, 0, 2], Inr [2, 1, 1, 1, 1, 1, 1, 1]]
   \<and> map (\<lambda>rk. map_sum fst (\<lambda>(r, s'). map (iteration_count (log s')) [1, 2, 3, 4, 5, 6, 7, 8])
                 (step (rank_of shard_cls rk 4) (example_args False 8) idle)) [0, 1, 2, 3]
     = [Inr [2, 1, 1, 1, 1, 1, 1, 1], Inr [0, 2, 0, 2, 0, 2, 0, 2],
        Inr [0, 2, 0, 2, 0, 2, 0, 2], Inr [2, 1, 1, 1, 1, 1, 1, 1]]"
  by code_simp

section \<open>Cursors and queue lengths under the calls of the schedule\<close>

text \<open>Every call that returns changes the cursors and the lengths of the four chunk queues
  as the corresponding step on shapes does, and keeps \<^verbatim>\<open>forward_only\<close> and
  \<^verbatim>\<open>return_outputs\<close>.\<close>

lemma pick_put_same [simp]: "pick p (put p f xs) = f (pick p xs)"
  by (simp add: pick_def put_def)

lemma pick_put_other [simp]: "p < 2 \<Longrightarrow> q < 2 \<Longrightarrow> p \<noteq> q \<Longrightarrow> pick q (put p f xs) = pick q xs"
  by (auto simp: pick_def put_def)

lemma pick_lens [simp]: "pick p (lens xs) = length (pick p xs)"
  by (simp add: pick_def lens_def)

lemma lens_put_update [simp]: "lens (put p (\<lambda>q. q[c := v]) xs) = lens xs"
  by (simp add: put_def lens_def)

lemma lens_put_append [simp]: "lens (put p (\<lambda>q. q @ [v]) xs) = put p Suc (lens xs)"
  by (simp add: put_def lens_def)

lemma forward_post_shape:
  "forward_post t p c s = Inr s' \<Longrightarrow>
     shape_of s' = (shape_of s)\<lparr>n_out := (if \<not> is_last_stage t p \<or> return_outputs s
                                          then put p Suc (n_out (shape_of s)) else n_out (shape_of s))\<rparr>
     \<and> forward_only s' = forward_only s \<and> return_outputs s' = return_outputs s"
  by (auto simp: forward_post_def Let_def shape_of_def split: if_splits option.splits)

lemma forward_compute_chunk_shape:
  assumes "forward_compute_chunk t ph s = Inr s'"
  shows "sh_forward t (return_outputs s) (phys t ph) (shape_of s) = Some (shape_of s')
     \<and> forward_only s' = forward_only s \<and> return_outputs s' = return_outputs s"
proof -
  let ?p = "phys t ph" and ?c = "pick (phys t ph) (current_f_chunk_id s)"
  let ?s1 = "s\<lparr>current_f_chunk_id := put ?p Suc (current_f_chunk_id s)\<rparr>"
  let ?s2 = "if forward_only s then ?s1\<lparr>input_chunks := put ?p (\<lambda>q. q[?c := None]) (input_chunks s)\<rparr> else ?s1"
  from assms have p2: "\<not> 2 \<le> ?p" and len: "\<not> length (pick ?p (input_chunks s)) \<le> ?c"
    and fp: "forward_post t ?p ?c (?s2\<lparr>log := log ?s2 @ [ModuleForward ?p ?c]\<rparr>) = Inr s'"
    by (auto simp: forward_compute_chunk_def Let_def split: if_splits)
  from forward_post_shape [OF fp] p2 len show ?thesis
    by (auto simp: sh_forward_def shape_of_def)
qed

lemma backward_pre_shape:
  "backward_pre p c s = Inr s' \<Longrightarrow>
     c < pick p (n_out (shape_of s)) \<and> c < pick p (n_outgrad (shape_of s))
     \<and> shape_of s' = shape_of s
     \<and> forward_only s' = forward_only s \<and> return_outputs s' = return_outputs s"
  by (auto simp: backward_pre_def Let_def shape_of_def not_le split: if_splits)

lemma backward_post_shape:
  "backward_post p c s = Inr s' \<Longrightarrow>
     shape_of s' = (shape_of s)\<lparr>n_ingrad := put p Suc (n_ingrad (shape_of s))\<rparr>
     \<and> forward_only s' = forward_only s \<and> return_outputs s' = return_outputs s"
  by (auto simp: backward_post_def Let_def shape_of_def split: if_splits)

lemma shape_of_frame [simp]:
  "shape_of (s\<lparr>log := l\<rparr>) = shape_of s"
  "shape_of (s\<lparr>wgs_enabled := e\<rparr>) = shape_of s"
  "shape_of (s\<lparr>loss_chunks := lc\<rparr>) = shape_of s"
  "shape_of (s\<lparr>comm_ops := ops\<rparr>) = shape_of s"
  "shape_of (s\<lparr>to_free := fr\<rparr>) = shape_of s"
  "shape_of (wgs_put u s) = shape_of s"
  "shape_of (wgs_flush s) = shape_of s"
  "shape_of (commit_and_wait_comm s) = shape_of s"
  by (simp_all add: shape_of_def wgs_put_def wgs_flush_def commit_and_wait_comm_def)

lemma modes_frame [simp]:
  "forward_only (wgs_put u s) = forward_only s" "return_outputs (wgs_put u s) = return_outputs s"
  "forward_only (wgs_flush s) = forward_only s" "return_outputs (wgs_flush s) = return_outputs s"
  "forward_only (commit_and_wait_comm s) = forward_only s"
  "return_outputs (commit_and_wait_comm s) = return_outputs s"
  by (simp_all add: wgs_put_def wgs_flush_def commit_and_wait_comm_def)

lemma backward_compute_chunk_shape:
  assumes "backward_compute_chunk t ph zb s = Inr s'" and fo: "\<not> forward_only s"
  shows "sh_backward t (phys t ph) (shape_of s) = Some (shape_of s')
     \<and> forward_only s' = forward_only s \<and> return_outputs s' = return_outputs s"
proof -
  let ?p = "phys t ph" and ?c = "pick (phys t ph) (current_b_chunk_id s)"
  let ?s1 = "s\<lparr>current_b_chunk_id := put ?p Suc (current_b_chunk_id s), wgs_enabled := zb\<rparr>"
  let ?r = "if is_last_stage t ?p
            then (if length (loss_chunks ?s1) \<le> ?c then Inl (IndexError, ?s1) else Inr ?s1)
            else backward_pre ?p ?c ?s1"
  from assms have p2: "\<not> 2 \<le> ?p"
    by (auto simp: backward_compute_chunk_def Let_def split: if_splits)
  from assms p2 obtain s2 where r: "?r = Inr s2"
    by (cases ?r) (auto simp: backward_compute_chunk_def Let_def)
  let ?s3 = "wgs_put (?p, ?c) (s2\<lparr>log := log s2 @ [BackwardKernel ?p ?c zb]\<rparr>)"
  let ?s5 = "if zb then wgs_flush (?s3\<lparr>wgs_enabled := False\<rparr>) else ?s3\<lparr>wgs_enabled := False\<rparr>"
  from assms p2 r have bp: "backward_post ?p ?c ?s5 = Inr s'"
    by (simp add: backward_compute_chunk_def Let_def)
  have s1: "shape_of ?s1 = (shape_of s)\<lparr>cb := put ?p Suc (cb (shape_of s))\<rparr>"
    by (simp add: shape_of_def)
  have s2: "shape_of s2 = shape_of ?s1 \<and> forward_only s2 = forward_only s \<and> return_outputs s2 = return_outputs s
       \<and> (\<not> is_last_stage t ?p \<longrightarrow> ?c < pick ?p (n_out (shape_of ?s1)) \<and> ?c < pick ?p (n_outgrad (shape_of ?s1)))"
    using r by (auto split: if_splits dest!: backward_pre_shape)
  have s5: "shape_of ?s5 = shape_of s2 \<and> forward_only ?s5 = forward_only s2 \<and> return_outputs ?s5 = return_outputs s2"
    by simp
  have c: "cb (shape_of s) = current_b_chunk_id s"
    by (simp add: shape_of_def)
  from backward_post_shape [OF bp] s5 s2 s1 p2 show ?thesis
    by (auto simp: sh_backward_def not_le c)
qed

lemma fused_shape:
  assumes ok: "forward_backward_compute_chunk t ph0 ph1 s = Inr s'"
    and fo: "\<not> forward_only s" and ov: "overlaped_forward_backward t"
  shows "(case sh_forward t (return_outputs s) (phys t ph0) (shape_of s) of
            None \<Rightarrow> None | Some sh1 \<Rightarrow> sh_backward t (phys t ph1) sh1) = Some (shape_of s')
     \<and> forward_only s' = forward_only s \<and> return_outputs s' = return_outputs s"
proof -
  let ?p0 = "phys t ph0" and ?c0 = "pick (phys t ph0) (current_f_chunk_id s)"
  let ?p1 = "phys t ph1" and ?c1 = "pick (phys t ph1) (current_b_chunk_id s)"
  let ?s1 = "s\<lparr>current_f_chunk_id := put ?p0 Suc (current_f_chunk_id s)\<rparr>"
  let ?s2 = "?s1\<lparr>current_b_chunk_id := put ?p1 Suc (current_b_chunk_id s)\<rparr>"
  let ?r = "if is_last_stage t ?p1
            then (if length (loss_chunks ?s2) \<le> ?c1 then Inl (IndexError, ?s2) else Inr ?s2)
            else backward_pre ?p1 ?c1 ?s2"
  from ok fo ov have p0: "\<not> 2 \<le> ?p0" and len: "\<not> length (pick ?p0 (input_chunks s)) \<le> ?c0"
    by (auto simp: forward_backward_compute_chunk_def Let_def split: if_splits)
  from ok fo ov p0 len have p1: "\<not> 2 \<le> ?p1"
    by (auto simp: forward_backward_compute_chunk_def Let_def split: if_splits)
  from ok fo ov p0 len p1 obtain s3 where r: "?r = Inr s3"
    by (cases ?r) (auto simp: forward_backward_compute_chunk_def Let_def split: if_splits)
  define s4 where "s4 = wgs_put (?p1, ?c1) (s3\<lparr>log := log s3 @ [OverlapedForwardBackward ?p0 ?c0 ?p1 ?c1]\<rparr>)"
  define s5 where "s5 = (if \<not> is_last_stage t ?p0 \<or> return_outputs s4
             then s4\<lparr>output_chunks := put ?p0 (\<lambda>q. q @ [Some Tensors]) (output_chunks s4)\<rparr>
             else s4)"
  define s6 where "s6 = (if is_last_stage t ?p0 \<and> criterion s5
             then s5\<lparr>loss_chunks := loss_chunks s5 @ [Tensors]\<rparr> else s5)"
  from ok fo ov p0 len p1 r have bp: "backward_post ?p1 ?c1 s6 = Inr s'"
    unfolding s6_def s5_def s4_def
    by (auto simp: forward_backward_compute_chunk_def Let_def split: if_splits)
  have s2: "shape_of ?s2 = (shape_of s)\<lparr>cf := put ?p0 Suc (cf (shape_of s)),
                                          cb := put ?p1 Suc (cb (shape_of s))\<rparr>"
    by (simp add: shape_of_def)
  have s3: "shape_of s3 = shape_of ?s2 \<and> forward_only s3 = forward_only s \<and> return_outputs s3 = return_outputs s
       \<and> (\<not> is_last_stage t ?p1 \<longrightarrow> ?c1 < pick ?p1 (n_out (shape_of ?s2)) \<and> ?c1 < pick ?p1 (n_outgrad (shape_of ?s2)))"
    using r by (auto split: if_splits dest!: backward_pre_shape)
  have s4: "shape_of s4 = shape_of s3 \<and> forward_only s4 = forward_only s \<and> return_outputs s4 = return_outputs s"
    using s3 by (simp add: s4_def)
  have s5: "shape_of s5 = (shape_of s4)\<lparr>n_out := (if \<not> is_last_stage t ?p0 \<or> return_outputs s
                                          then put ?p0 Suc (n_out (shape_of s4)) else n_out (shape_of s4))\<rparr>
       \<and> forward_only s5 = forward_only s \<and> return_outputs s5 = return_outputs s"
    using s4 by (auto simp: shape_of_def s5_def)
  have s6: "shape_of s6 = shape_of s5 \<and> forward_only s6 = forward_only s \<and> return_outputs s6 = return_outputs s"
    using s5 by (simp add: s6_def)
  have sel: "cb (shape_of s) = current_b_chunk_id s" "cf (shape_of s) = current_f_chunk_id s"
    "n_in (shape_of s) = lens (input_chunks s)"
    by (simp_all add: shape_of_def)
  have mono: "pick ?p1 (n_out (shape_of s)) \<le> pick ?p1 (put ?p0 Suc (n_out (shape_of s)))"
    using p0 p1 by (cases "?p1 = ?p0") (simp_all add: not_le)
  have fin: "shape_of s' = (shape_of s6)\<lparr>n_ingrad := put ?p1 Suc (n_ingrad (shape_of s6))\<rparr>
       \<and> forward_only s' = forward_only s6 \<and> return_outputs s' = return_outputs s6"
    using backward_post_shape [OF bp] by blast
  have g: "\<not> is_last_stage t ?p1 \<longrightarrow> ?c1 < pick ?p1 (n_out (shape_of s)) \<and> ?c1 < pick ?p1 (n_outgrad (shape_of s))"
    using s3 by (simp add: s2)
  have e: "shape_of s' = (shape_of s)\<lparr>cf := put ?p0 Suc (cf (shape_of s)),
              cb := put ?p1 Suc (cb (shape_of s)),
              n_out := (if \<not> is_last_stage t ?p0 \<or> return_outputs s
                        then put ?p0 Suc (n_out (shape_of s)) else n_out (shape_of s)),
              n_ingrad := put ?p1 Suc (n_ingrad (shape_of s))\<rparr>"
    using fin s6 s5 s4 s3 s2 by simp
  have m: "forward_only s' = forward_only s \<and> return_outputs s' = return_outputs s"
    using fin s6 by simp
  from e m g mono p0 p1 len show ?thesis
    by (auto simp: sh_forward_def sh_backward_def not_le sel)
qed

lemma forward_backward_compute_chunk_shape:
  assumes ok: "forward_backward_compute_chunk t ph0 ph1 s = Inr s'"
  shows "shape_step t (forward_only s) (return_outputs s) (ForwardBackwardComputeChunk ph0 ph1) (shape_of s)
           = Some (shape_of s')
     \<and> forward_only s' = forward_only s \<and> return_outputs s' = return_outputs s"
proof (cases "forward_only s")
  case True
  with ok have "forward_compute_chunk t ph0 s = Inr s'"
    by (simp add: forward_backward_compute_chunk_def)
  from forward_compute_chunk_shape [OF this] True show ?thesis by simp
next
  case False
  show ?thesis
  proof (cases "overlaped_forward_backward t")
    case True
    from fused_shape [OF ok False True] False show ?thesis by simp
  next
    case ov: False
    from ok False ov obtain s1 where f: "forward_compute_chunk t ph0 s = Inr s1"
      and b: "backward_compute_chunk t ph1 False s1 = Inr s'"
      by (auto simp: forward_backward_compute_chunk_def split: sum.splits)
    from forward_compute_chunk_shape [OF f] have f1: "sh_forward t (return_outputs s) (phys t ph0) (shape_of s) = Some (shape_of s1)"
      and m1: "forward_only s1 = forward_only s" "return_outputs s1 = return_outputs s"
      by simp_all
    from m1 False have "\<not> forward_only s1" by simp
    from backward_compute_chunk_shape [OF b this] f1 m1 False show ?thesis by simp
  qed
qed

lemma recv_forward_shape:
  "recv_forward t ph s = Inr s' \<Longrightarrow>
     shape_step t (forward_only s) (return_outputs s) (RecvForward ph) (shape_of s) = Some (shape_of s')
     \<and> forward_only s' = forward_only s \<and> return_outputs s' = return_outputs s"
  by (auto simp: recv_forward_def Let_def shape_of_def split: if_splits)

lemma send_forward_shape:
  "send_forward t ph s = Inr s' \<Longrightarrow>
     shape_step t (forward_only s) (return_outputs s) (SendForward ph) (shape_of s) = Some (shape_of s')
     \<and> forward_only s' = forward_only s \<and> return_outputs s' = return_outputs s"
  by (auto simp: send_forward_def Let_def shape_of_def split: if_splits)

lemma recv_backward_shape:
  "recv_backward t ph s = Inr s' \<Longrightarrow>
     shape_step t (forward_only s) (return_outputs s) (RecvBackward ph) (shape_of s) = Some (shape_of s')
     \<and> forward_only s' = forward_only s \<and> return_outputs s' = return_outputs s"
  by (auto simp: recv_backward_def Let_def shape_of_def split: if_splits)

lemma send_backward_shape:
  "send_backward t ph s = Inr s' \<Longrightarrow>
     shape_step t (forward_only s) (return_outputs s) (SendBackward ph) (shape_of s) = Some (shape_of s')
     \<and> forward_only s' = forward_only s \<and> return_outputs s' = return_outputs s"
  by (auto simp: send_backward_def Let_def shape_of_def split: if_splits)

lemma weight_chunk_shape:
  "weight_chunk s = Inr s' \<Longrightarrow>
     shape_of s' = shape_of s \<and> forward_only s' = forward_only s \<and> return_outputs s' = return_outputs s"
  by (auto simp: weight_chunk_def wgs_pop_def shape_of_def commit_and_wait_comm_def split: if_splits)

lemma exec_shape:
  assumes "exec t a s = Inr s'"
  shows "shape_step t (forward_only s) (return_outputs s) a (shape_of s) = Some (shape_of s')
     \<and> forward_only s' = forward_only s \<and> return_outputs s' = return_outputs s"
proof (cases a)
  case (RecvForward ph) with assms recv_forward_shape show ?thesis by simp
next
  case (SendForward ph) with assms send_forward_shape show ?thesis by simp
next
  case (RecvBackward ph) with assms recv_backward_shape show ?thesis by simp
next
  case (SendBackward ph) with assms send_backward_shape show ?thesis by simp
next
  case CommitAndWaitComm with assms show ?thesis by auto
next
  case (ForwardComputeChunk ph) with assms forward_compute_chunk_shape show ?thesis by simp
next
  case (BackwardComputeChunk ph zb)
  show ?thesis
  proof (cases "forward_only s")
    case True with assms BackwardComputeChunk show ?thesis
      by (simp add: backward_compute_chunk_def)
  next
    case False
    with assms BackwardComputeChunk backward_compute_chunk_shape [of t ph zb s s'] show ?thesis by simp
  qed
next
  case (ForwardBackwardComputeChunk ph0 ph1)
  with assms forward_backward_compute_chunk_shape [of t ph0 ph1 s s'] show ?thesis by simp
next
  case WeightChunk with assms weight_chunk_shape [of s s'] show ?thesis by simp
next
  case (LogIter k i) with assms show ?thesis by auto
qed

subsection \<open>The order of the cursors\<close>

lemma sh_inv_iff: "sh_inv t sh \<longleftrightarrow> (\<forall>q<2. ph_inv t sh q)"
proof -
  have "(q::nat) < 2 \<longleftrightarrow> q = 0 \<or> q = 1" for q by auto
  then show ?thesis by (auto simp: sh_inv_def)
qed

lemma pick_put: "p < 2 \<Longrightarrow> q < 2 \<Longrightarrow> pick q (put p f xs) = (if q = p then f (pick p xs) else pick q xs)"
  by simp

lemma sh_forward_ph_inv:
  assumes "sh_forward t ro p sh = Some sh'" and "ph_inv t sh q" and "q < 2"
  shows "ph_inv t sh' q"
proof -
  from assms(1) have p: "p < 2" and g: "pick p (cf sh) < pick p (n_in sh)"
    and e: "sh' = sh\<lparr>cf := put p Suc (cf sh),
                    n_out := (if \<not> is_last_stage t p \<or> ro then put p Suc (n_out sh) else n_out sh)\<rparr>"
    by (auto simp: sh_forward_def not_le split: if_splits)
  show ?thesis
  proof (cases "q = p")
    case True
    with assms(2) g p show ?thesis by (auto simp: e ph_inv_def)
  next
    case False
    with assms(2) p \<open>q < 2\<close> show ?thesis by (simp add: e ph_inv_def)
  qed
qed

lemma sh_backward_ph_inv:
  assumes "sh_backward t p sh = Some sh'" and "ph_inv t sh q" and "q < 2"
  shows "ph_inv t sh' q"
proof -
  from assms(1) have p: "p < 2"
    and g: "\<not> is_last_stage t p \<longrightarrow> pick p (cb sh) < pick p (n_out sh) \<and> pick p (cb sh) < pick p (n_outgrad sh)"
    and e: "sh' = sh\<lparr>cb := put p Suc (cb sh), n_ingrad := put p Suc (n_ingrad sh)\<rparr>"
    by (auto simp: sh_backward_def not_le split: if_splits)
  show ?thesis
  proof (cases "q = p")
    case True
    with assms(2) g p show ?thesis by (auto simp: e ph_inv_def)
  next
    case False
    with assms(2) p \<open>q < 2\<close> show ?thesis by (simp add: e ph_inv_def)
  qed
qed

lemma recv_forward_ph_inv:
  assumes "shape_step t fo ro (RecvForward ph) sh = Some sh'" and "ph_inv t sh q" and "q < 2"
  shows "ph_inv t sh' q"
proof (cases "is_first_stage t (phys t ph)")
  case True with assms show ?thesis by simp
next
  case False
  with assms(1) have p: "phys t ph < 2"
    and e: "sh' = sh\<lparr>rf := put (phys t ph) Suc (rf sh), n_in := put (phys t ph) Suc (n_in sh)\<rparr>"
    by (auto simp: Let_def not_le split: if_splits)
  show ?thesis
  proof (cases "q = phys t ph")
    case True
    with assms(2) p False show ?thesis by (auto simp: e ph_inv_def)
  next
    case ne: False
    with assms(2) p \<open>q < 2\<close> show ?thesis by (simp add: e ph_inv_def)
  qed
qed

lemma send_forward_ph_inv:
  assumes "shape_step t fo ro (SendForward ph) sh = Some sh'" and "ph_inv t sh q" and "q < 2"
  shows "ph_inv t sh' q"
proof (cases "is_last_stage t (phys t ph)")
  case True with assms show ?thesis by simp
next
  case False
  with assms(1) have p: "phys t ph < 2" and g: "pick (phys t ph) (sf sh) < pick (phys t ph) (n_out sh)"
    and e: "sh' = sh\<lparr>sf := put (phys t ph) Suc (sf sh)\<rparr>"
    by (auto simp: Let_def not_le split: if_splits)
  show ?thesis
  proof (cases "q = phys t ph")
    case True
    with assms(2) p g False show ?thesis by (auto simp: e ph_inv_def)
  next
    case ne: False
    with assms(2) p \<open>q < 2\<close> show ?thesis by (simp add: e ph_inv_def)
  qed
qed

lemma recv_backward_ph_inv:
  assumes "shape_step t fo ro (RecvBackward ph) sh = Some sh'" and "ph_inv t sh q" and "q < 2"
  shows "ph_inv t sh' q"
proof (cases "fo \<or> is_last_stage t (phys t ph)")
  case True with assms show ?thesis by auto
next
  case False
  with assms(1) have p: "phys t ph < 2"
    and e: "sh' = sh\<lparr>rb := put (phys t ph) Suc (rb sh), n_outgrad := put (phys t ph) Suc (n_outgrad sh)\<rparr>"
    by (auto simp: Let_def not_le split: if_splits)
  show ?thesis
  proof (cases "q = phys t ph")
    case True
    with assms(2) p False show ?thesis by (auto simp: e ph_inv_def)
  next
    case ne: False
    with assms(2) p \<open>q < 2\<close> show ?thesis by (simp add: e ph_inv_def)
  qed
qed

lemma send_backward_ph_inv:
  assumes "shape_step t fo ro (SendBackward ph) sh = Some sh'" and "ph_inv t sh q" and "q < 2"
  shows "ph_inv t sh' q"
proof (cases "fo \<or> is_first_stage t (phys t ph)")
  case True with assms show ?thesis by auto
next
  case False
  with assms(1) have p: "phys t ph < 2" and g: "pick (phys t ph) (sb sh) < pick (phys t ph) (n_ingrad sh)"
    and e: "sh' = sh\<lparr>sb := put (phys t ph) Suc (sb sh)\<rparr>"
    by (auto simp: Let_def not_le split: if_splits)
  show ?thesis
  proof (cases "q = phys t ph")
    case True
    with assms(2) p g False show ?thesis by (auto simp: e ph_inv_def)
  next
    case ne: False
    with assms(2) p \<open>q < 2\<close> show ?thesis by (simp add: e ph_inv_def)
  qed
qed

lemma shape_step_ph_inv:
  assumes st: "shape_step t fo ro a sh = Some sh'" and i: "\<forall>q<2. ph_inv t sh q" and q: "q < 2"
  shows "ph_inv t sh' q"
proof (cases a)
  case (RecvForward ph) with assms recv_forward_ph_inv show ?thesis by blast
next
  case (SendForward ph) with assms send_forward_ph_inv show ?thesis by blast
next
  case (RecvBackward ph) with assms recv_backward_ph_inv show ?thesis by blast
next
  case (SendBackward ph) with assms send_backward_ph_inv show ?thesis by blast
next
  case (ForwardComputeChunk ph) with assms sh_forward_ph_inv show ?thesis by auto
next
  case (BackwardComputeChunk ph zb)
  show ?thesis
  proof (cases fo)
    case True with st BackwardComputeChunk i q show ?thesis by simp
  next
    case False
    with st BackwardComputeChunk have "sh_backward t (phys t ph) sh = Some sh'" by simp
    from sh_backward_ph_inv [OF this] i q show ?thesis by blast
  qed
next
  case (ForwardBackwardComputeChunk ph0 ph1)
  show ?thesis
  proof (cases fo)
    case True
    with st ForwardBackwardComputeChunk have "sh_forward t ro (phys t ph0) sh = Some sh'" by simp
    from sh_forward_ph_inv [OF this] i q show ?thesis by blast
  next
    case False
    with st ForwardBackwardComputeChunk obtain sh1
      where f: "sh_forward t ro (phys t ph0) sh = Some sh1"
        and b: "sh_backward t (phys t ph1) sh1 = Some sh'"
      by (auto split: option.splits)
    from sh_forward_ph_inv [OF f] i have "\<forall>q<2. ph_inv t sh1 q" by blast
    with sh_backward_ph_inv [OF b] q show ?thesis by blast
  qed
next
  case CommitAndWaitComm with assms show ?thesis by simp
next
  case WeightChunk with assms show ?thesis by simp
next
  case (LogIter k j) with assms show ?thesis by simp
qed

lemma shape_step_inv:
  "shape_step t fo ro a sh = Some sh' \<Longrightarrow> sh_inv t sh \<Longrightarrow> sh_inv t sh'"
  unfolding sh_inv_iff using shape_step_ph_inv by blast

lemma run_shape_inv:
  "run t as s = Inr s' \<Longrightarrow> sh_inv t (shape_of s) \<Longrightarrow>
     sh_inv t (shape_of s') \<and> forward_only s' = forward_only s \<and> return_outputs s' = return_outputs s"
proof (induction as arbitrary: s)
  case Nil then show ?case by simp
next
  case (Cons a as)
  from Cons.prems(1) obtain s1 where e: "exec t a s = Inr s1" and r: "run t as s1 = Inr s'"
    by (auto split: sum.splits)
  from exec_shape [OF e] shape_step_inv Cons.prems(2)
  have "sh_inv t (shape_of s1)" and m: "forward_only s1 = forward_only s" "return_outputs s1 = return_outputs s"
    by auto
  with Cons.IH [OF r] show ?case by simp
qed

lemma sh_inv_ordered: "sh_inv t (shape_of s) \<Longrightarrow> cursors_ordered t s"
  by (simp add: sh_inv_def ph_inv_def cursors_ordered_def shape_of_def) blast

lemma step_begin_shape_inv: "sh_inv t (shape_of (step_begin t a s))"
  by (simp add: sh_inv_def ph_inv_def shape_of_def step_begin_def reset_states_def wgs_clear_def Let_def
        pick_def lens_def is_first_stage_def is_last_stage_def)

lemma run_append_Inr:
  "run t (as @ bs) s = Inr s' \<Longrightarrow> \<exists>s1. run t as s = Inr s1 \<and> run t bs s1 = Inr s'"
  by (induction as arbitrary: s) (auto split: sum.splits)

lemma run_prefix_ordered:
  assumes "run t as (step_begin t a s) = Inr s'"
  shows "\<exists>s1. run t (take n as) (step_begin t a s) = Inr s1 \<and> cursors_ordered t s1"
proof -
  from assms have "run t (take n as @ drop n as) (step_begin t a s) = Inr s'" by simp
  from run_append_Inr [OF this] obtain s1 where r: "run t (take n as) (step_begin t a s) = Inr s1"
    by blast
  from run_shape_inv [OF r step_begin_shape_inv] sh_inv_ordered r show ?thesis by blast
qed

subsection \<open>How far a sequence of calls moves a cursor\<close>

lemma phys_lt_2: "phase < 2 \<Longrightarrow> phys t phase < 2"
proof -
  assume "phase < 2"
  then have "phase = 0 \<or> phase = 1" by auto
  then show ?thesis by (cases "is_in_second_half t") (auto simp: phys_def)
qed

lemma phys_phys [simp]: "phys t (phys t phase) = phase"
  by (simp add: phys_def xor.assoc)

lemma phys_lt_2_iff [simp]: "phys t phase < 2 \<longleftrightarrow> phase < 2"
  by (metis phys_lt_2 phys_phys)

lemma phys_eq_iff [simp]: "phys t p = phys t q \<longleftrightarrow> p = q"
  by (metis phys_phys)

lemma sh_cursor_shape_of: "sh_cursor c (shape_of s) = cursor_of c s"
  by (cases c) (simp_all add: shape_of_def)

lemma sh_forward_cursor:
  assumes "sh_forward t ro (phys t p) sh = Some sh'" and "ph < 2"
  shows "pick (phys t ph) (sh_cursor c sh') =
         pick (phys t ph) (sh_cursor c sh) + (if c = ComputeF \<and> p = ph then 1 else 0)"
proof -
  from assms(1) have p: "phys t p < 2"
    and e: "sh' = sh\<lparr>cf := put (phys t p) Suc (cf sh),
                    n_out := (if \<not> is_last_stage t (phys t p) \<or> ro then put (phys t p) Suc (n_out sh) else n_out sh)\<rparr>"
    by (auto simp: sh_forward_def not_le split: if_splits)
  from p assms(2) show ?thesis
    by (cases c) (simp_all add: e pick_put)
qed

lemma sh_backward_cursor:
  assumes "sh_backward t (phys t p) sh = Some sh'" and "ph < 2"
  shows "pick (phys t ph) (sh_cursor c sh') =
         pick (phys t ph) (sh_cursor c sh) + (if c = ComputeB \<and> p = ph then 1 else 0)"
proof -
  from assms(1) have p: "phys t p < 2"
    and e: "sh' = sh\<lparr>cb := put (phys t p) Suc (cb sh), n_ingrad := put (phys t p) Suc (n_ingrad sh)\<rparr>"
    by (auto simp: sh_backward_def not_le split: if_splits)
  from p assms(2) show ?thesis
    by (cases c) (simp_all add: e pick_put)
qed

lemma shape_step_cursor:
  assumes st: "shape_step t fo ro a sh = Some sh'" and ph: "ph < 2"
  shows "pick (phys t ph) (sh_cursor c sh') =
         pick (phys t ph) (sh_cursor c sh)
         + (if bumps c ph a \<and> active t fo c (phys t ph) then 1 else 0)"
proof (cases a)
  case (RecvForward p)
  show ?thesis
  proof (cases "is_first_stage t (phys t p)")
    case True with st RecvForward show ?thesis by (cases c) auto
  next
    case False
    with st RecvForward have p: "phys t p < 2"
      and e: "sh' = sh\<lparr>rf := put (phys t p) Suc (rf sh), n_in := put (phys t p) Suc (n_in sh)\<rparr>"
      by (auto simp: Let_def not_le split: if_splits)
    from p ph False show ?thesis
      by (cases c) (auto simp: e pick_put RecvForward)
  qed
next
  case (SendForward p)
  show ?thesis
  proof (cases "is_last_stage t (phys t p)")
    case True with st SendForward show ?thesis by (cases c) auto
  next
    case False
    with st SendForward have p: "phys t p < 2"
      and e: "sh' = sh\<lparr>sf := put (phys t p) Suc (sf sh)\<rparr>"
      by (auto simp: Let_def not_le split: if_splits)
    from p ph False show ?thesis
      by (cases c) (auto simp: e pick_put SendForward)
  qed
next
  case (RecvBackward p)
  show ?thesis
  proof (cases "fo \<or> is_last_stage t (phys t p)")
    case True with st RecvBackward show ?thesis by (cases c) auto
  next
    case False
    with st RecvBackward have p: "phys t p < 2"
      and e: "sh' = sh\<lparr>rb := put (phys t p) Suc (rb sh), n_outgrad := put (phys t p) Suc (n_outgrad sh)\<rparr>"
      by (auto simp: Let_def not_le split: if_splits)
    from p ph False show ?thesis
      by (cases c) (auto simp: e pick_put RecvBackward)
  qed
next
  case (SendBackward p)
  show ?thesis
  proof (cases "fo \<or> is_first_stage t (phys t p)")
    case True with st SendBackward show ?thesis by (cases c) auto
  next
    case False
    with st SendBackward have p: "phys t p < 2"
      and e: "sh' = sh\<lparr>sb := put (phys t p) Suc (sb sh)\<rparr>"
      by (auto simp: Let_def not_le split: if_splits)
    from p ph False show ?thesis
      by (cases c) (auto simp: e pick_put SendBackward)
  qed
next
  case (ForwardComputeChunk p)
  with st have "sh_forward t ro (phys t p) sh = Some sh'" by simp
  from sh_forward_cursor [OF this ph, of c] ForwardComputeChunk show ?thesis
    by (cases c) auto
next
  case (BackwardComputeChunk p zb)
  show ?thesis
  proof (cases fo)
    case True with st BackwardComputeChunk show ?thesis by (cases c) auto
  next
    case False
    with st BackwardComputeChunk have "sh_backward t (phys t p) sh = Some sh'" by simp
    from sh_backward_cursor [OF this ph, of c] BackwardComputeChunk False show ?thesis
      by (cases c) auto
  qed
next
  case (ForwardBackwardComputeChunk p0 p1)
  show ?thesis
  proof (cases fo)
    case True
    with st ForwardBackwardComputeChunk have "sh_forward t ro (phys t p0) sh = Some sh'" by simp
    from sh_forward_cursor [OF this ph, of c] ForwardBackwardComputeChunk True show ?thesis
      by (cases c) auto
  next
    case False
    with st ForwardBackwardComputeChunk obtain sh1
      where f: "sh_forward t ro (phys t p0) sh = Some sh1"
        and b: "sh_backward t (phys t p1) sh1 = Some sh'"
      by (auto split: option.splits)
    from sh_forward_cursor [OF f ph, of c] sh_backward_cursor [OF b ph, of c]
      ForwardBackwardComputeChunk False show ?thesis
      by (cases c) auto
  qed
next
  case CommitAndWaitComm with st show ?thesis by (cases c) auto
next
  case WeightChunk with st show ?thesis by (cases c) auto
next
  case (LogIter k j) with st show ?thesis by (cases c) auto
qed

lemma hits_simps [simp]:
  "hits c ph [] = 0"
  "hits c ph (a # as) = (if bumps c ph a then 1 else 0) + hits c ph as"
  "hits c ph (as @ bs) = hits c ph as + hits c ph bs"
  by (simp_all add: hits_def)

lemma run_cursor:
  "run t as s = Inr s' \<Longrightarrow> ph < 2 \<Longrightarrow>
     pick (phys t ph) (cursor_of c s') =
       pick (phys t ph) (cursor_of c s)
       + (if active t (forward_only s) c (phys t ph) then hits c ph as else 0)"
proof (induction as arbitrary: s)
  case Nil then show ?case by simp
next
  case (Cons a as)
  from Cons.prems(1) obtain s1 where e: "exec t a s = Inr s1" and r: "run t as s1 = Inr s'"
    by (auto split: sum.splits)
  from exec_shape [OF e]
  have st: "shape_step t (forward_only s) (return_outputs s) a (shape_of s) = Some (shape_of s1)"
    and m: "forward_only s1 = forward_only s"
    by simp_all
  from shape_step_cursor [OF st Cons.prems(2), of c]
  have "pick (phys t ph) (cursor_of c s1) =
         pick (phys t ph) (cursor_of c s)
         + (if bumps c ph a \<and> active t (forward_only s) c (phys t ph) then 1 else 0)"
    by (simp add: sh_cursor_shape_of)
  with Cons.IH [OF r Cons.prems(2)] m show ?case by simp
qed

subsection \<open>How often the schedule addresses a cursor\<close>

lemma hits_concat: "hits c ph (concat xss) = sum_list (map (hits c ph) xss)"
  by (induction xss) simp_all

lemma hits_for_range:
  "hits c ph (for_range n body) = sum_list (map (\<lambda>i. hits c ph (body i)) [0..<nat n])"
  by (simp add: for_range_def hits_concat comp_def)

lemma hits_step_6_loop:
  "hits c ph (step_6_loop is n hr zb) =
     length is * hits c ph (backward_chunk 1 False True True @ backward_chunk 0 False True True)"
  by (induction "is" arbitrary: zb) (cases c; simp add: backward_chunk_def Let_def)+

lemma hits_if:
  "hits c ph (if b then xs else ys) = (if b then hits c ph xs else hits c ph ys)"
  by simp

lemma sum_list_if_first:
  "sum_list (map (\<lambda>i. if i = 0 then a else b) [0..<n]) = (if n = 0 then 0 else a + (n - 1) * (b::nat))"
proof (cases n)
  case 0 then show ?thesis by simp
next
  case (Suc k)
  have "[0..<Suc k] = 0 # map Suc [0..<k]"
    by (simp add: upt_conv_Cons map_Suc_upt del: upt_Suc)
  then show ?thesis
    by (simp add: Suc comp_def sum_list_triv del: upt_Suc)
qed

lemma sum_list_if_less:
  "sum_list (map (\<lambda>i. if int i < hr then a else b) [0..<n])
     = min n (nat hr) * a + (n - min n (nat hr)) * (b::nat)"
  by (induction n) (auto simp: min_def Suc_diff_le)

lemmas chunk_defs = forward_chunk_def backward_chunk_def forward_backward_chunk_def

lemma hits_step_1:
  assumes "ph = 0 \<or> ph = 1"
  shows "hits c ph (step_1 nhr hr) =
     (if ph = 0 \<and> c \<in> {RecvF, ComputeF, SendF} then nat ((nhr - hr - 1) * 2) else 0)"
  using assms by (cases c) (auto simp: step_1_def hits_for_range chunk_defs sum_list_triv)

lemma hits_step_3:
  assumes "ph = 0 \<or> ph = 1"
  shows "hits c ph (step_3 nhr hr) = (if ph = 1 then nat (nhr - hr - 1) else 0)"
  using assms by (cases c) (auto simp: step_3_def hits_for_range chunk_defs sum_list_triv)

lemma hits_step_5:
  assumes "ph = 0 \<or> ph = 1"
  shows "hits c ph (step_5 nhr hr) =
     (if ph = 1 \<or> c \<in> {RecvB, ComputeB, SendB} then nat (nhr - hr - 1) else 0)"
  using assms by (cases c) (auto simp: step_5_def hits_for_range chunk_defs sum_list_triv)

lemma hits_step_6:
  assumes "ph = 0 \<or> ph = 1"
  shows "hits c ph (step_6 hr) = (if c \<in> {RecvB, ComputeB, SendB} then nat (hr + 1) else 0)"
  using assms by (cases c) (auto simp: step_6_def hits_step_6_loop chunk_defs)

lemma hits_step_7:
  assumes "ph = 0 \<or> ph = 1"
  shows "hits c ph (step_7 nhr hr) =
     (if ph = 0 \<and> c \<in> {RecvB, ComputeB, SendB} then nat (nhr - hr - 1) else 0)"
  using assms by (cases c) (auto simp: step_7_def hits_for_range chunk_defs sum_list_triv)

lemma hits_step_8: "hits c ph (step_8 hr) = 0"
  by (cases c) (simp_all add: step_8_def hits_for_range)

lemma hits_step_2:
  assumes "ph = 0 \<or> ph = 1" and "0 \<le> hr"
  shows "hits c ph (step_2 middle hr) =
     (if c \<in> {RecvB, ComputeB, SendB} then 0
      else if c = RecvF \<and> ph = 0 then nat (hr + 1) + 1
      else if c = SendF \<and> ph = 1 \<and> middle then nat (hr + 1) - 1
      else nat (hr + 1))"
  using assms
  by (cases c; cases middle)
     (auto simp: step_2_def hits_for_range chunk_defs sum_list_triv sum_list_addf hits_if sum_list_if_less)

lemma hits_step_4:
  assumes "ph = 0 \<or> ph = 1" and "0 < hnc - nr + hr + 1"
  shows "hits c ph (step_4 middle nr hr hnc) =
     (let n = nat (hnc - nr + hr + 1) in
      if c = RecvF \<and> ph = 0 then n - 1
      else if c = SendF \<and> ph = 1 \<and> middle then n + 1
      else n)"
  using assms
  by (cases c; cases middle)
     (auto simp: step_4_def hits_for_range chunk_defs sum_list_triv sum_list_addf hits_if sum_list_if_first Let_def)

lemma hits_schedule:
  assumes ph: "ph = 0 \<or> ph = 1"
    and r0: "0 \<le> rank t" and rn: "rank t < num_ranks t"
    and ev: "num_ranks t mod 2 = 0" and nc: "num_ranks t * 2 \<le> nc"
  shows "hits c ph (schedule t nc) = nat (nc div 2)"
proof -
  define nr where "nr = num_ranks t"
  define nhr where "nhr = nr div 2"
  define hr where "hr = min (rank t) (nr - 1 - rank t)"
  define hnc where "hnc = nc div 2"
  have h0: "0 \<le> hr" and h1: "0 \<le> nhr - hr - 1" and h4: "0 < hnc - nr + hr + 1"
    and tot: "(nhr - hr - 1) * 2 + (hr + 1) + (hnc - nr + hr + 1) = hnc"
    using r0 rn ev nc by (auto simp: hr_def nhr_def hnc_def nr_def min_def)
  define N1 where "N1 = nat (nhr - hr - 1)"
  define H where "H = nat (hr + 1)"
  define M where "M = nat (hnc - nr + hr + 1)"
  have n1: "nat ((nhr - hr - 1) * 2) = 2 * N1" and hp: "0 < H" and mp: "0 < M"
    and sum: "2 * N1 + H + M = nat hnc"
    using h0 h1 h4 tot by (auto simp: N1_def H_def M_def)
  have "hits c ph (schedule t nc) =
          hits c ph (step_1 nhr hr) + hits c ph (step_2 (is_middle_rank t) hr)
        + hits c ph (step_3 nhr hr) + hits c ph (step_4 (is_middle_rank t) nr hr hnc)
        + hits c ph (step_5 nhr hr) + hits c ph (step_6 hr) + hits c ph (step_7 nhr hr)
        + hits c ph (step_8 hr)"
    by (simp add: schedule_def Let_def nr_def nhr_def hr_def hnc_def)
  also have "\<dots> = nat hnc"
    unfolding hits_step_1 [OF ph] hits_step_2 [OF ph h0] hits_step_3 [OF ph] hits_step_4 [OF ph h4]
      hits_step_5 [OF ph] hits_step_6 [OF ph] hits_step_7 [OF ph] hits_step_8
      n1 N1_def [symmetric] H_def [symmetric] M_def [symmetric] Let_def
    using ph hp mp sum by (cases c) auto
  finally show ?thesis by (simp add: hnc_def)
qed

subsection \<open>The cursors when the eighth loop ends and when the step returns\<close>

lemma step_begin_cursors:
  "cursor_of c (step_begin t a s) = (0, 0) \<and> forward_only (step_begin t a s) = forward_only s"
  by (cases c) (simp_all add: step_begin_def reset_states_def wgs_clear_def Let_def)

lemma schedule_cursor_totals:
  assumes run: "run t (schedule t nc) (step_begin t a s) = Inr s3"
    and r0: "0 \<le> rank t" and rn: "rank t < num_ranks t"
    and ev: "num_ranks t mod 2 = 0" and nc: "num_ranks t * 2 \<le> nc"
    and p: "p = 0 \<or> p = 1"
  shows "cursors_at p s3 = cursors_at_loops_end t (forward_only s) (nat (nc div 2)) p"
proof -
  from p have "p < 2" by auto
  then have ph2: "phys t p < 2" by simp
  then have ph: "phys t p = 0 \<or> phys t p = 1" by arith
  have z: "pick p (cursor_of c (step_begin t a s)) = 0" for c
    by (simp add: step_begin_cursors pick_def)
  have "pick p (cursor_of c s3) = (if active t (forward_only s) c p then nat (nc div 2) else 0)" for c
    using run_cursor [OF run ph2, of c] hits_schedule [OF ph r0 rn ev nc, of c]
    by (simp add: step_begin_cursors pick_def)
  from this [of ComputeF] this [of ComputeB] this [of SendF] this [of SendB] this [of RecvF] this [of RecvB]
  show ?thesis
    by (simp add: cursors_at_def cursors_at_loops_end_def)
qed

lemma reset_states_cursors: "cursors_at p (reset_states s) = [0, 0, 0, 0, 0, 0]"
  by (simp add: cursors_at_def reset_states_def wgs_clear_def pick_def)

lemma step_Inr_loops:
  assumes "step t a s = Inr (r, s')"
  shows "\<exists>s3. run t (schedule t (arg_num_chunks a)) (at_first_loop t a s) = Inr s3
             \<and> wgs_funcs_queue s3 = [] \<and> s' = reset_states (commit_and_wait_comm s3)"
  using step_Inr [OF assms] step_end_Inr unfolding at_first_loop_def by blast


section \<open>The order and the final values of the cursors\<close>

text \<open>
  Claim C3, as stated, fails. On rank 0 of two ranks, which is the first stage of physical
  phase 0, \<^verbatim>\<open>_recv_forward\<close> returns without advancing its cursor: after the first forward
  compute of a step over four chunks the forward compute cursor of phase 0 is 1 and the
  forward receive cursor is 0, and when the eighth loop ends they are 2 and 0. When
  \<^verbatim>\<open>step\<close> has returned, the final \<^verbatim>\<open>_reset_states\<close> has set all six cursors of both
  phases to 0, not to \<open>numChunks / 2 = 2\<close>. The cursors are listed in the order forward
  compute, backward compute, forward send, backward send, forward receive, backward
  receive.
\<close>

theorem compute_cursor_passes_recv_counterexample:
  "init True (shard_cls, shard_cls) 2 0 None = Inr (rank_of shard_cls 0 2)
   \<and> map_sum fst (cursors_at 0)
        (run (rank_of shard_cls 0 2) (take 4 (schedule (rank_of shard_cls 0 2) 4))
           (at_first_loop (rank_of shard_cls 0 2) (example_args True 4) idle))
       = Inr [1, 0, 0, 0, 0, 0]
   \<and> map_sum fst (\<lambda>s3. (cursors_at 0 s3, cursors_at 1 s3))
        (run (rank_of shard_cls 0 2) (schedule (rank_of shard_cls 0 2) 4)
           (at_first_loop (rank_of shard_cls 0 2) (example_args True 4) idle))
       = Inr ([2, 2, 2, 0, 0, 2], [2, 2, 0, 2, 2, 0])
   \<and> map_sum fst (\<lambda>(r, s'). (cursors_at 0 s', cursors_at 1 s'))
        (step (rank_of shard_cls 0 2) (example_args True 4) idle)
       = Inr ([0, 0, 0, 0, 0, 0], [0, 0, 0, 0, 0, 0])"
  by code_simp

text \<open>
  Claim C3, amended. In every \<^verbatim>\<open>step\<close>, whether it returns or raises later, after every
  number \<open>n\<close> of calls of its loops that have returned, for each physical phase: the
  forward send cursor is at most the forward compute cursor and the backward send cursor
  at most the backward compute cursor; the forward compute cursor is at most the forward
  receive cursor unless the phase is a first stage, and the backward compute cursor at
  most the backward receive cursor unless it is a last stage. If \<^verbatim>\<open>step\<close> returns on a rank
  \<open>0 \<le> rank < num_ranks\<close>, then every call of the eight loops has returned and, when the
  eighth loop ends, with \<open>h = num_chunks div 2\<close>, the forward compute cursor is \<open>h\<close>; the
  backward compute cursor is \<open>h\<close>, or 0 in a forward-only step; the forward send and the
  backward receive cursor are \<open>h\<close> off a last stage and 0 on it, the forward receive and
  the backward send cursor \<open>h\<close> off a first stage and 0 on it, the two backward ones 0
  in a forward-only step. The state \<^verbatim>\<open>step\<close> returns is reset, with all cursors 0.
\<close>

theorem cursor_order_and_totals:
  "(\<forall>n sn. run t (take n (schedule t (arg_num_chunks a))) (at_first_loop t a s) = Inr sn
            \<longrightarrow> cursors_ordered t sn)
   \<and> (step t a s = Inr (r, s') \<and> 0 \<le> rank t \<and> rank t < num_ranks t \<longrightarrow>
        (\<exists>s3. run t (schedule t (arg_num_chunks a)) (at_first_loop t a s) = Inr s3
           \<and> (\<forall>n. \<exists>sn. run t (take n (schedule t (arg_num_chunks a))) (at_first_loop t a s) = Inr sn
                       \<and> cursors_ordered t sn)
           \<and> (\<forall>p\<in>{0, 1}. cursors_at p s3 =
                (let h = nat (arg_num_chunks a div 2); fo = \<not> grad_enabled a
                 in [h, if fo then 0 else h,
                     if is_last_stage t p then 0 else h, if fo \<or> is_first_stage t p then 0 else h,
                     if is_first_stage t p then 0 else h, if fo \<or> is_last_stage t p then 0 else h]))
           \<and> s' = reset_states (commit_and_wait_comm s3)
           \<and> (\<forall>p\<in>{0, 1}. cursors_at p s' = [0, 0, 0, 0, 0, 0])))"
proof -
  have any: "cursors_ordered t sn"
    if "run t (take n (schedule t (arg_num_chunks a))) (at_first_loop t a s) = Inr sn" for n sn
    using run_shape_inv [OF that [unfolded at_first_loop_def] step_begin_shape_inv]
    by (simp add: sh_inv_ordered)
  have "\<exists>s3. run t (schedule t (arg_num_chunks a)) (at_first_loop t a s) = Inr s3
           \<and> (\<forall>n. \<exists>sn. run t (take n (schedule t (arg_num_chunks a))) (at_first_loop t a s) = Inr sn
                       \<and> cursors_ordered t sn)
           \<and> (\<forall>p\<in>{0, 1}. cursors_at p s3 =
                (let h = nat (arg_num_chunks a div 2); fo = \<not> grad_enabled a
                 in [h, if fo then 0 else h,
                     if is_last_stage t p then 0 else h, if fo \<or> is_first_stage t p then 0 else h,
                     if is_first_stage t p then 0 else h, if fo \<or> is_last_stage t p then 0 else h]))
           \<and> s' = reset_states (commit_and_wait_comm s3)
           \<and> (\<forall>p\<in>{0, 1}. cursors_at p s' = [0, 0, 0, 0, 0, 0])"
    if ok: "step t a s = Inr (r, s')" and r0: "0 \<le> rank t" and rn: "rank t < num_ranks t"
  proof -
    from step_Inr_loops [OF ok] obtain s3 where
      run: "run t (schedule t (arg_num_chunks a)) (at_first_loop t a s) = Inr s3"
      and s': "s' = reset_states (commit_and_wait_comm s3)"
      by blast
    from step_Inr_checks [OF ok] have ev: "num_ranks t mod 2 = 0"
      and nc: "num_ranks t * 2 \<le> arg_num_chunks a"
      by simp_all
    have ord: "\<exists>sn. run t (take n (schedule t (arg_num_chunks a))) (at_first_loop t a s) = Inr sn
                         \<and> cursors_ordered t sn" for n
      using run unfolding at_first_loop_def by (rule run_prefix_ordered)
    have tot: "cursors_at p s3 =
                  (let h = nat (arg_num_chunks a div 2); fo = \<not> grad_enabled a
                   in [h, if fo then 0 else h,
                       if is_last_stage t p then 0 else h, if fo \<or> is_first_stage t p then 0 else h,
                       if is_first_stage t p then 0 else h, if fo \<or> is_last_stage t p then 0 else h])"
      if "p = 0 \<or> p = 1" for p
      using schedule_cursor_totals [OF run [unfolded at_first_loop_def] r0 rn ev nc that]
      by (simp add: cursors_at_loops_end_def Let_def)
    from run ord tot s' show ?thesis
      by (auto simp: reset_states_cursors)
  qed
  with any show ?thesis by blast
qed

theorem cursor_order_and_totals_witness:
  "(\<exists>s3. run (rank_of shard_cls 0 4) (schedule (rank_of shard_cls 0 4) 8)
            (at_first_loop (rank_of shard_cls 0 4) (example_args True 8) idle) = Inr s3
         \<and> cursors_at 0 s3 = [4, 4, 4, 0, 0, 4] \<and> cursors_at 1 s3 = [4, 4, 0, 4, 4, 0])
   \<and> (\<exists>sn. run (rank_of shard_cls 0 4) (take 9 (schedule (rank_of shard_cls 0 4) 8))
            (at_first_loop (rank_of shard_cls 0 4) (example_args True 8) idle) = Inr sn
         \<and> cursors_ordered (rank_of shard_cls 0 4) sn)
   \<and> map_sum fst (\<lambda>(r, s'). (cursors_at 0 s', cursors_at 1 s'))
        (step (rank_of shard_cls 0 4) (example_args True 8) idle)
       = Inr ([0, 0, 0, 0, 0, 0], [0, 0, 0, 0, 0, 0])
   \<and> (0::int) \<le> rank (rank_of shard_cls 0 4)
   \<and> rank (rank_of shard_cls 0 4) < num_ranks (rank_of shard_cls 0 4)
   \<and> map_sum fst fst
        (step (rank_of shard_cls 0 4) ((example_args True 8)\<lparr>scattered_inputs := [Some Tensors]\<rparr>) idle)
       = Inl IndexError
   \<and> (\<exists>sn. run (rank_of shard_cls 0 4) (take 5 (schedule (rank_of shard_cls 0 4) 8))
            (at_first_loop (rank_of shard_cls 0 4)
               ((example_args True 8)\<lparr>scattered_inputs := [Some Tensors]\<rparr>) idle) = Inr sn
         \<and> cursors_ordered (rank_of shard_cls 0 4) sn)"
proof -
  let ?t = "rank_of shard_cls 0 4" and ?a = "example_args True 8"
  let ?b = "(example_args True 8)\<lparr>scattered_inputs := [Some Tensors]\<rparr>"
  have 4: "map_sum fst fst (step ?t ?b idle) = Inl IndexError"
    by code_simp
  have "\<not> isl (run ?t (take 5 (schedule ?t 8)) (at_first_loop ?t ?b idle))"
    by code_simp
  then obtain sn where pre: "run ?t (take 5 (schedule ?t 8)) (at_first_loop ?t ?b idle) = Inr sn"
    by (cases "run ?t (take 5 (schedule ?t 8)) (at_first_loop ?t ?b idle)") auto
  have b: "arg_num_chunks ?b = 8"
    by (simp add: example_args_def)
  from cursor_order_and_totals [of ?t ?b idle] pre have "cursors_ordered ?t sn"
    by (simp add: b)
  with pre have 5: "\<exists>sn. run ?t (take 5 (schedule ?t 8)) (at_first_loop ?t ?b idle) = Inr sn
         \<and> cursors_ordered ?t sn"
    by blast
  have "\<not> isl (step ?t ?a idle)"
    by code_simp
  then obtain r s' where ok: "step ?t ?a idle = Inr (r, s')"
    by (cases "step ?t ?a idle") auto
  have r0: "0 \<le> rank ?t" and rn: "rank ?t < num_ranks ?t"
    by (simp_all add: rank_of_def)
  have st: "is_first_stage ?t 0" "\<not> is_first_stage ?t (Suc 0)"
    "\<not> is_last_stage ?t 0" "is_last_stage ?t (Suc 0)"
    by (simp_all add: is_first_stage_def is_last_stage_def rank_of_def)
  have a: "grad_enabled ?a" "arg_num_chunks ?a = 8"
    by (simp_all add: example_args_def)
  from cursor_order_and_totals [of ?t ?a idle r s'] ok r0 rn obtain s3 where
    run: "run ?t (schedule ?t (arg_num_chunks ?a)) (at_first_loop ?t ?a idle) = Inr s3"
    and ord: "\<And>n. \<exists>sn. run ?t (take n (schedule ?t (arg_num_chunks ?a))) (at_first_loop ?t ?a idle) = Inr sn
                       \<and> cursors_ordered ?t sn"
    and tot: "\<forall>p\<in>{0, 1}. cursors_at p s3 =
                (let h = nat (arg_num_chunks ?a div 2); fo = \<not> grad_enabled ?a
                 in [h, if fo then 0 else h,
                     if is_last_stage ?t p then 0 else h, if fo \<or> is_first_stage ?t p then 0 else h,
                     if is_first_stage ?t p then 0 else h, if fo \<or> is_last_stage ?t p then 0 else h])"
    and z: "\<forall>p\<in>{0, 1}. cursors_at p s' = [0, 0, 0, 0, 0, 0]"
    by blast
  from tot have "cursors_at 0 s3 = [4, 4, 4, 0, 0, 4] \<and> cursors_at 1 s3 = [4, 4, 0, 4, 4, 0]"
    by (simp add: st a)
  with run have 1: "\<exists>s3. run ?t (schedule ?t 8) (at_first_loop ?t ?a idle) = Inr s3
         \<and> cursors_at 0 s3 = [4, 4, 4, 0, 0, 4] \<and> cursors_at 1 s3 = [4, 4, 0, 4, 4, 0]"
    by (auto simp: a)
  from ord [of 9] have 2: "\<exists>sn. run ?t (take 9 (schedule ?t 8)) (at_first_loop ?t ?a idle) = Inr sn
         \<and> cursors_ordered ?t sn"
    by (simp add: a)
  from z ok have 3: "map_sum fst (\<lambda>(r, s'). (cursors_at 0 s', cursors_at 1 s')) (step ?t ?a idle)
       = Inr ([0, 0, 0, 0, 0, 0], [0, 0, 0, 0, 0, 0])"
    by simp
  from 1 2 3 4 5 r0 rn show ?thesis by blast
qed

section \<open>The cursors of a forward-only step\<close>

text \<open>
  Claim C4, as stated, fails. With four ranks and eight chunks, a forward-only step on
  rank 1 ends its eighth loop with the forward compute, send and receive cursors of both
  phases at \<open>numChunks / 2 = 4\<close> and the three backward cursors at 0, because
  \<^verbatim>\<open>_backward_compute_chunk\<close>, \<^verbatim>\<open>_recv_backward\<close> and \<^verbatim>\<open>_send_backward\<close> return at once in
  forward-only mode; and in the state \<^verbatim>\<open>step\<close> returns all six cursors are 0. The queue
  of the weight-gradient store is empty at both points.
\<close>

theorem forward_only_backward_cursors_counterexample:
  "init True (shard_cls, shard_cls) 4 1 None = Inr (rank_of shard_cls 1 4)
   \<and> \<not> grad_enabled (example_args False 8)
   \<and> map_sum fst (\<lambda>s3. (cursors_at 0 s3, cursors_at 1 s3, wgs_funcs_queue s3))
        (run (rank_of shard_cls 1 4) (schedule (rank_of shard_cls 1 4) 8)
           (at_first_loop (rank_of shard_cls 1 4) (example_args False 8) idle))
       = Inr ([4, 0, 4, 0, 4, 0], [4, 0, 4, 0, 4, 0], [])
   \<and> map_sum fst (\<lambda>(r, s'). (cursors_at 0 s', cursors_at 1 s', wgs_funcs_queue s'))
        (step (rank_of shard_cls 1 4) (example_args False 8) idle)
       = Inr ([0, 0, 0, 0, 0, 0], [0, 0, 0, 0, 0, 0], [])"
  by code_simp

text \<open>
  Claim C4, amended. Let a forward-only \<^verbatim>\<open>step\<close> (gradient tracking disabled) return on a
  rank \<open>0 \<le> rank < num_ranks\<close>; the number of ranks is then even and the number of chunks
  even and at least twice the number of ranks. When the eighth loop ends, the queue of the
  weight-gradient store is empty and, for each physical phase, with
  \<open>h = num_chunks div 2\<close>: the forward compute cursor is \<open>h\<close>, the forward send cursor is
  \<open>h\<close> off a last stage and 0 on it, the forward receive cursor is \<open>h\<close> off a first stage
  and 0 on it, and the three backward cursors are 0. In the state \<^verbatim>\<open>step\<close> returns, which
  is reset, the queue is empty and all six cursors of both phases are 0.
\<close>

theorem forward_only_step_cursors:
  assumes ok: "step t a s = Inr (r, s')" and fo: "\<not> grad_enabled a"
    and r0: "0 \<le> rank t" and rn: "rank t < num_ranks t"
  shows "\<exists>s3. run t (schedule t (arg_num_chunks a)) (at_first_loop t a s) = Inr s3
           \<and> wgs_funcs_queue s3 = []
           \<and> (\<forall>p\<in>{0, 1}. cursors_at p s3 =
                (let h = nat (arg_num_chunks a div 2)
                 in [h, 0, if is_last_stage t p then 0 else h, 0,
                     if is_first_stage t p then 0 else h, 0]))
           \<and> s' = reset_states (commit_and_wait_comm s3)
           \<and> wgs_funcs_queue s' = []
           \<and> (\<forall>p\<in>{0, 1}. cursors_at p s' = [0, 0, 0, 0, 0, 0])
           \<and> num_ranks t mod 2 = 0 \<and> 2 \<le> num_ranks t
           \<and> arg_num_chunks a mod 2 = 0 \<and> num_ranks t * 2 \<le> arg_num_chunks a"
proof -
  from step_Inr_loops [OF ok] obtain s3 where
    run: "run t (schedule t (arg_num_chunks a)) (at_first_loop t a s) = Inr s3"
    and q: "wgs_funcs_queue s3 = []"
    and s': "s' = reset_states (commit_and_wait_comm s3)"
    by blast
  from step_Inr_checks [OF ok] have ev: "num_ranks t mod 2 = 0"
    and nc: "num_ranks t * 2 \<le> arg_num_chunks a" and ec: "arg_num_chunks a mod 2 = 0"
    by simp_all
  from ev r0 rn have two: "2 \<le> num_ranks t"
    by presburger
  have tot: "cursors_at p s3 =
                (let h = nat (arg_num_chunks a div 2)
                 in [h, 0, if is_last_stage t p then 0 else h, 0,
                     if is_first_stage t p then 0 else h, 0])"
    if "p = 0 \<or> p = 1" for p
    using schedule_cursor_totals [OF run [unfolded at_first_loop_def] r0 rn ev nc that] fo
    by (simp add: cursors_at_loops_end_def Let_def)
  have q': "wgs_funcs_queue s' = []"
    by (simp add: s' reset_states_def wgs_clear_def)
  from run q tot s' q' ev two ec nc show ?thesis
    by (auto simp: reset_states_cursors)
qed

theorem forward_only_step_cursors_witness:
  "(\<exists>s3. run (rank_of shard_cls 3 4) (schedule (rank_of shard_cls 3 4) 8)
            (at_first_loop (rank_of shard_cls 3 4) (example_args False 8) idle) = Inr s3
         \<and> wgs_funcs_queue s3 = []
         \<and> cursors_at 0 s3 = [4, 0, 0, 0, 4, 0] \<and> cursors_at 1 s3 = [4, 0, 4, 0, 0, 0])
   \<and> map_sum fst (\<lambda>(r, s'). (cursors_at 0 s', cursors_at 1 s', wgs_funcs_queue s'))
        (step (rank_of shard_cls 3 4) (example_args False 8) idle)
       = Inr ([0, 0, 0, 0, 0, 0], [0, 0, 0, 0, 0, 0], [])
   \<and> \<not> grad_enabled (example_args False 8)
   \<and> (0::int) \<le> rank (rank_of shard_cls 3 4)
   \<and> rank (rank_of shard_cls 3 4) < num_ranks (rank_of shard_cls 3 4)"
proof -
  let ?t = "rank_of shard_cls 3 4" and ?a = "example_args False 8"
  have "\<not> isl (step ?t ?a idle)"
    by code_simp
  then obtain r s' where ok: "step ?t ?a idle = Inr (r, s')"
    by (cases "step ?t ?a idle") auto
  have r0: "0 \<le> rank ?t" and rn: "rank ?t < num_ranks ?t"
    by (simp_all add: rank_of_def)
  have st: "\<not> is_first_stage ?t 0" "is_first_stage ?t (Suc 0)"
    "is_last_stage ?t 0" "\<not> is_last_stage ?t (Suc 0)"
    by (simp_all add: is_first_stage_def is_last_stage_def rank_of_def)
  have a: "\<not> grad_enabled ?a" "arg_num_chunks ?a = 8"
    by (simp_all add: example_args_def)
  from forward_only_step_cursors [OF ok a(1) r0 rn] obtain s3 where
    run: "run ?t (schedule ?t (arg_num_chunks ?a)) (at_first_loop ?t ?a idle) = Inr s3"
    and q: "wgs_funcs_queue s3 = []"
    and tot: "\<forall>p\<in>{0, 1}. cursors_at p s3 =
                (let h = nat (arg_num_chunks ?a div 2)
                 in [h, 0, if is_last_stage ?t p then 0 else h, 0,
                     if is_first_stage ?t p then 0 else h, 0])"
    and q': "wgs_funcs_queue s' = []"
    and z: "\<forall>p\<in>{0, 1}. cursors_at p s' = [0, 0, 0, 0, 0, 0]"
    by blast
  from tot have "cursors_at 0 s3 = [4, 0, 0, 0, 4, 0] \<and> cursors_at 1 s3 = [4, 0, 4, 0, 0, 0]"
    by (simp add: st a)
  with run q have 1: "\<exists>s3. run ?t (schedule ?t 8) (at_first_loop ?t ?a idle) = Inr s3
         \<and> wgs_funcs_queue s3 = []
         \<and> cursors_at 0 s3 = [4, 0, 0, 0, 4, 0] \<and> cursors_at 1 s3 = [4, 0, 4, 0, 0, 0]"
    by (auto simp: a)
  from z q' ok have 3: "map_sum fst (\<lambda>(r, s'). (cursors_at 0 s', cursors_at 1 s', wgs_funcs_queue s'))
        (step ?t ?a idle) = Inr ([0, 0, 0, 0, 0, 0], [0, 0, 0, 0, 0, 0], [])"
    by simp
  from 1 3 a(1) r0 rn show ?thesis by blast
qed

end
